theory Spec2Isabelle
  imports Complex_Main "HOL-Library.AList" "HOL-Library.Sublist"
begin

section \<open>Python values\<close>

text \<open>
  The values that populate parameter mappings, schemas, state trees and updates.
  A dictionary is an association list in insertion order; a well-formed dictionary has
  distinct keys. Keys are strings, as the elements of a hierarchy path are.
\<close>

datatype pyval =
    VNone
  | VBool bool
  | VInt int
  | VFloat real
  | VStr string
  | VList "pyval list"
  | VDict "(string \<times> pyval) list"

type_synonym pdict = "(string \<times> pyval) list"

datatype error =
    AttributeError
  | KeyError
  | TypeError
  | NoSerializerFound
  | MultipleSerializers
  | RecursionLimit
  | RuntimeError
  | RecursionError

text \<open>\<^verbatim>\<open>d.get(k, default)\<close> on a dictionary.\<close>

definition dict_get :: "pdict \<Rightarrow> string \<Rightarrow> pyval \<Rightarrow> pyval" where
  "dict_get d k dflt = (case map_of d k of None \<Rightarrow> dflt | Some v \<Rightarrow> v)"

text \<open>
  \<^verbatim>\<open>dict(d, **{k: v})\<close> and \<^verbatim>\<open>d[k] = v\<close>: an existing key keeps its position and
  takes the new value, a new key goes to the end.
\<close>

definition dict_set :: "pdict \<Rightarrow> string \<Rightarrow> pyval \<Rightarrow> pdict" where
  "dict_set d k v = AList.update k v d"

section \<open>Path Resolver: \<^verbatim>\<open>assoc_in\<close>\<close>

text \<open>
  \<^verbatim>\<open>
  def assoc_in(d, path, value):
      if path:
          return dict(d, **{path[0]: assoc_in(d.get(path[0], {}), path[1:], value)})
      return value
  \<close>
  The keyword dictionary is evaluated before \<^verbatim>\<open>dict\<close> is called, so the first thing
  that happens on a non-empty path is \<^verbatim>\<open>d.get\<close>: it raises \<^verbatim>\<open>AttributeError\<close> on
  anything that is not a dictionary (\<^verbatim>\<open>None\<close>, numbers, strings and lists have no
  \<^verbatim>\<open>get\<close>). An error of the recursive call propagates.
\<close>

fun assoc_in :: "pyval \<Rightarrow> string list \<Rightarrow> pyval \<Rightarrow> error + pyval" where
  "assoc_in d [] v = Inr v"
| "assoc_in (VDict d) (k # ks) v =
     (case assoc_in (dict_get d k (VDict [])) ks v of
        Inl e \<Rightarrow> Inl e
      | Inr sub \<Rightarrow> Inr (VDict (dict_set d k sub)))"
| "assoc_in _ (k # ks) v = Inl AttributeError"

text \<open>Reading a path back: the value at the end of the path, if every step is a key
  of a dictionary.\<close>

fun get_in :: "pyval \<Rightarrow> string list \<Rightarrow> pyval option" where
  "get_in d [] = Some d"
| "get_in (VDict d) (k # ks) =
     (case map_of d k of None \<Rightarrow> None | Some c \<Rightarrow> get_in c ks)"
| "get_in _ (k # ks) = None"

text \<open>
  A path is insertable when it does not run through a value that is present but is not
  a dictionary: every step either finds a dictionary to descend into or finds the key
  missing.
\<close>

fun insertable :: "pyval \<Rightarrow> string list \<Rightarrow> bool" where
  "insertable d [] = True"
| "insertable (VDict d) (k # ks) =
     (case map_of d k of None \<Rightarrow> True | Some c \<Rightarrow> insertable c ks)"
| "insertable _ (k # ks) = False"


section \<open>\<^verbatim>\<open>assoc_in\<close> on a store of dictionary objects\<close>

text \<open>
  To speak about mutation, the same function is modelled over an explicit store. A
  value is an atom or a reference to an object of the store; an address is an index into
  the store, and allocating an object appends it. Evaluation order is the one of the
  source: \<^verbatim>\<open>{}\<close> (the default of \<^verbatim>\<open>get\<close>) is constructed whether or not the key is
  present, the recursive call runs next, and \<^verbatim>\<open>dict(d, **kw)\<close> then reads \<^verbatim>\<open>d\<close> and
  builds a new dictionary object. The function returns the store together with the
  result or the error, so that the store is also known when an exception is raised.
\<close>

datatype hval = HNone | HBool bool | HInt int | HFloat real | HStr string | HRef nat

datatype hobj = ODict "(string \<times> hval) list" | OList "hval list"

type_synonym heap = "hobj list"

fun deref_dict :: "heap \<Rightarrow> hval \<Rightarrow> (string \<times> hval) list option" where
  "deref_dict h (HRef a) =
     (if a < length h then (case h ! a of ODict items \<Rightarrow> Some items | OList _ \<Rightarrow> None)
      else None)"
| "deref_dict h _ = None"

fun assoc_in_h :: "heap \<Rightarrow> hval \<Rightarrow> string list \<Rightarrow> hval \<Rightarrow> heap \<times> (error + hval)" where
  "assoc_in_h h d [] v = (h, Inr v)"
| "assoc_in_h h d (k # ks) v =
     (case deref_dict h d of
        None \<Rightarrow> (h, Inl AttributeError)
      | Some items \<Rightarrow>
          (case assoc_in_h (h @ [ODict []])
                  (case map_of items k of Some c \<Rightarrow> c | None \<Rightarrow> HRef (length h)) ks v of
             (h2, Inl e) \<Rightarrow> (h2, Inl e)
           | (h2, Inr sub) \<Rightarrow>
               (case deref_dict h2 d of
                  None \<Rightarrow> (h2, Inl TypeError)
                | Some items2 \<Rightarrow>
                    (h2 @ [ODict (AList.update k sub items2)], Inr (HRef (length h2))))))"

fun get_in_h :: "heap \<Rightarrow> hval \<Rightarrow> string list \<Rightarrow> hval option" where
  "get_in_h h d [] = Some d"
| "get_in_h h d (k # ks) =
     (case deref_dict h d of
        None \<Rightarrow> None
      | Some items \<Rightarrow> (case map_of items k of None \<Rightarrow> None | Some c \<Rightarrow> get_in_h h c ks))"

section \<open>Processes\<close>

text \<open>Well-formed values: the keys of every dictionary are distinct.\<close>

fun wf_items :: "pdict \<Rightarrow> bool" and wf_val :: "pyval \<Rightarrow> bool" where
  "wf_items [] = True"
| "wf_items ((k, v) # rest) = (k \<notin> fst ` set rest \<and> wf_val v \<and> wf_items rest)"
| "wf_val (VDict d) = wf_items d"
| "wf_val _ = True"

text \<open>
  Modelled from the spec: \<^verbatim>\<open>deep_merge\<close> of \<^verbatim>\<open>vivarium.library.dict_utils\<close> is imported
  by \<^verbatim>\<open>process.py\<close> but is not part of the sources. The spec calls it a depth-first
  mapping merge in which the override wins: every entry of the override is written into
  the base, and where both sides hold a mapping under the same key the two mappings are
  merged in turn. The source uses it as an in-place update of its first argument that
  also returns it; here the updated mapping is the result.
\<close>

fun deep_merge :: "pdict \<Rightarrow> pdict \<Rightarrow> pdict" where
  "deep_merge dct [] = dct"
| "deep_merge dct ((k, v) # rest) =
     deep_merge
       (case v of
          VDict mv \<Rightarrow>
            (case map_of dct k of
               Some (VDict sub) \<Rightarrow> dict_set dct k (VDict (deep_merge sub mv))
             | _ \<Rightarrow> dict_set dct k v)
        | _ \<Rightarrow> dict_set dct k v)
       rest"


text \<open>\<^verbatim>\<open>copy.deepcopy\<close>: a new object equal to the old one; on values, the same value.\<close>

definition deepcopy :: "'a \<Rightarrow> 'a" where
  "deepcopy x = x"

text \<open>\<^verbatim>\<open>d.pop(k, default)\<close>: the value removed (or the default) and the dictionary left.\<close>

definition dict_pop :: "pdict \<Rightarrow> string \<Rightarrow> pyval \<Rightarrow> pyval \<times> pdict" where
  "dict_pop d k dflt =
     (case map_of d k of None \<Rightarrow> (dflt, d) | Some v \<Rightarrow> (v, AList.delete k d))"

text \<open>\<^verbatim>\<open>d.setdefault(k, v)\<close>, for its effect on the dictionary.\<close>

definition dict_setdefault :: "pdict \<Rightarrow> string \<Rightarrow> pyval \<Rightarrow> pdict" where
  "dict_setdefault d k v = (case map_of d k of None \<Rightarrow> dict_set d k v | Some _ \<Rightarrow> d)"

definition DEFAULT_TIME_STEP :: pyval where
  "DEFAULT_TIME_STEP = VFloat 1.0"

text \<open>
  What a subclass of \<^verbatim>\<open>Process\<close> fixes: its name, the optional class attribute
  \<^verbatim>\<open>name\<close>, the class-level \<^verbatim>\<open>defaults\<close>, and the schema its \<^verbatim>\<open>ports_schema()\<close>
  returns for given instance parameters.
\<close>

record process_class =
  cls_name :: string
  cls_attr_name :: "pyval option"
  defaults :: pdict
  cls_ports_schema :: "pdict \<Rightarrow> pyval"

record process =
  name :: pyval
  parameters :: pdict
  schema_override :: pyval
  parallel :: pyval
  schema :: pyval
  ports_schema :: pyval

text \<open>
  \<^verbatim>\<open>
  def __init__(self, parameters=None):
      parameters = parameters or {}
      if 'name' in parameters:
          self.name = parameters['name']
      elif not hasattr(self, 'name'):
          self.name = self.__class__.__name__
      self.parameters = copy.deepcopy(self.defaults)
      self.parameters = deep_merge(self.parameters, parameters)
      self.schema_override = self.parameters.pop('_schema', {})
      self.parallel = self.parameters.pop('_parallel', False)
      self.parameters.setdefault('time_step', DEFAULT_TIME_STEP)
      self.schema = None
  \<close>
\<close>

text \<open>The class defaults merged with the parameters given at construction.\<close>

abbreviation merged_parameters :: "process_class \<Rightarrow> pdict option \<Rightarrow> pdict" where
  "merged_parameters cls parameters0 \<equiv>
     deep_merge (deepcopy (defaults cls)) (case parameters0 of None \<Rightarrow> [] | Some p \<Rightarrow> p)"

definition init :: "process_class \<Rightarrow> pdict option \<Rightarrow> process" where
  "init cls parameters0 =
     (let params = (case parameters0 of None \<Rightarrow> [] | Some p \<Rightarrow> p);
          nm = (case map_of params ''name'' of
                  Some n \<Rightarrow> n
                | None \<Rightarrow> (case cls_attr_name cls of Some n \<Rightarrow> n | None \<Rightarrow> VStr (cls_name cls)));
          merged = deep_merge (deepcopy (defaults cls)) params;
          (so, p1) = dict_pop merged ''_schema'' (VDict []);
          (par, p2) = dict_pop p1 ''_parallel'' (VBool False);
          p3 = dict_setdefault p2 ''time_step'' DEFAULT_TIME_STEP
      in \<lparr>name = nm, parameters = p3, schema_override = so, parallel = par,
          schema = VNone, ports_schema = cls_ports_schema cls p3\<rparr>)"

text \<open>
  \<^verbatim>\<open>
  def calculate_timestep(self, states):
      _ = states
      return self.parameters['time_step']
  \<close>
\<close>

definition calculate_timestep :: "process \<Rightarrow> pyval \<Rightarrow> error + pyval" where
  "calculate_timestep self states =
     (case map_of (parameters self) ''time_step'' of None \<Rightarrow> Inl KeyError | Some v \<Rightarrow> Inr v)"


text \<open>
  The operator \<^verbatim>\<open>key in value\<close> for a string key: membership among the keys of a
  dictionary, substring test on a string, element test on a list; the other values are
  not containers and raise \<^verbatim>\<open>TypeError\<close>.
\<close>

fun py_contains :: "pyval \<Rightarrow> string \<Rightarrow> error + bool" where
  "py_contains (VDict d) k = Inr (k \<in> fst ` set d)"
| "py_contains (VStr s) k = Inr (sublist k s)"
| "py_contains (VList xs) k = Inr (VStr k \<in> set xs)"
| "py_contains _ k = Inl TypeError"

text \<open>The subscript \<^verbatim>\<open>value[key]\<close> for a string key.\<close>

fun py_getitem :: "pyval \<Rightarrow> string \<Rightarrow> error + pyval" where
  "py_getitem (VDict d) k = (case map_of d k of None \<Rightarrow> Inl KeyError | Some v \<Rightarrow> Inr v)"
| "py_getitem _ k = Inl TypeError"

text \<open>
  \<^verbatim>\<open>
  def default_state(self):
      schema = self.get_schema()
      state = {}
      for port, states in schema.items():
          for key, value in states.items():
              if '_default' in value:
                  if port not in state:
                      state[port] = {}
                  state[port][key] = value['_default']
      return state
  \<close>
  The inner loop is \<open>default_port\<close>, the outer loop \<open>default_ports\<close>; both pass the
  \<^verbatim>\<open>state\<close> built so far.
\<close>

fun default_port :: "string \<Rightarrow> pdict \<Rightarrow> pdict \<Rightarrow> error + pdict" where
  "default_port port [] state = Inr state"
| "default_port port ((key, v) # rest) state =
     (case py_contains v ''_default'' of
        Inl e \<Rightarrow> Inl e
      | Inr False \<Rightarrow> default_port port rest state
      | Inr True \<Rightarrow>
          (case py_getitem v ''_default'' of
             Inl e \<Rightarrow> Inl e
           | Inr dv \<Rightarrow>
               (let state1 = (if port \<notin> fst ` set state then dict_set state port (VDict [])
                              else state)
                in case map_of state1 port of
                     Some (VDict pd) \<Rightarrow>
                       default_port port rest (dict_set state1 port (VDict (dict_set pd key dv)))
                   | _ \<Rightarrow> Inl TypeError)))"



text \<open>
  A schema in the sense of the data model: every port holds a mapping from variable
  names to records of behaviour flags, that is, to mappings.
\<close>

definition is_dict :: "pyval \<Rightarrow> bool" where
  "is_dict v = (case v of VDict _ \<Rightarrow> True | _ \<Rightarrow> False)"







section \<open>Serialization fallback\<close>

text \<open>
  An object as the fallback sees it: the string of its runtime type, the strings of the
  classes it is an instance of, and its data.
\<close>

record pyobj =
  obj_type :: string
  obj_classes :: "string list"
  obj_data :: pyval

definition isinstance :: "pyobj \<Rightarrow> string \<Rightarrow> bool" where
  "isinstance obj cls = (cls \<in> set (obj_classes obj))"

record serializer =
  python_type :: string
  serialize :: "pyobj \<Rightarrow> error + pyobj"

text \<open>
  Modelled from the spec: \<^verbatim>\<open>serializer_registry\<close> of \<^verbatim>\<open>vivarium.core.registry\<close> is
  imported by \<^verbatim>\<open>serialize.py\<close> but is not part of the sources. The spec describes a
  serializer registry keyed by runtime type; the source uses two operations of it,
  \<^verbatim>\<open>access(key)\<close>, whose result is tested for absence, and \<^verbatim>\<open>list()\<close>, whose elements
  are passed to \<^verbatim>\<open>access\<close>. The registry is a finite mapping from keys to serializers.
\<close>

type_synonym registry = "(string \<times> serializer) list"

definition registry_access :: "registry \<Rightarrow> string \<Rightarrow> serializer option" where
  "registry_access reg key = map_of reg key"

definition registry_list :: "registry \<Rightarrow> string list" where
  "registry_list reg = remdups (map fst reg)"

text \<open>
  The search loop of the fallback:
  \<^verbatim>\<open>
  compatible_serializers = []
  for serializer_name in serializer_registry.list():
      test_serializer = serializer_registry.access(serializer_name)
      if isinstance(obj, test_serializer.python_type):
          compatible_serializers.append(test_serializer)
  \<close>
\<close>

fun compatible_serializers :: "registry \<Rightarrow> pyobj \<Rightarrow> string list \<Rightarrow> serializer list" where
  "compatible_serializers reg obj [] = []"
| "compatible_serializers reg obj (serializer_name # names) =
     (case registry_access reg serializer_name of
        None \<Rightarrow> compatible_serializers reg obj names
      | Some test_serializer \<Rightarrow>
          (if isinstance obj (python_type test_serializer)
           then test_serializer # compatible_serializers reg obj names
           else compatible_serializers reg obj names))"

text \<open>A key of the registry whose serializer is registered for a class of the object.\<close>

definition registered_match :: "registry \<Rightarrow> pyobj \<Rightarrow> string \<Rightarrow> bool" where
  "registered_match reg obj key =
     (case registry_access reg key of
        None \<Rightarrow> False
      | Some s \<Rightarrow> isinstance obj (python_type s))"

text \<open>
  \<^verbatim>\<open>
  def make_default():
      def default(obj):
          serializer = serializer_registry.access(str(type(obj)))
          if not serializer:
              compatible_serializers = [...]
              if len(compatible_serializers) > 1:
                  raise TypeError('Multiple serializers ...')
              if not compatible_serializers:
                  raise TypeError('No serializer found ...')
              serializer = compatible_serializers[0]
          return serializer.serialize(obj)
      return default
  \<close>
  The warning issued after a successful search is not modelled.
\<close>

definition make_default :: "registry \<Rightarrow> pyobj \<Rightarrow> error + pyobj" where
  "make_default reg obj =
     (case registry_access reg (obj_type obj) of
        Some s \<Rightarrow> serialize s obj
      | None \<Rightarrow>
          (let compatible = compatible_serializers reg obj (registry_list reg)
           in if length compatible > 1 then Inl MultipleSerializers
              else if compatible = [] then Inl NoSerializerFound
              else serialize (hd compatible) obj))"

text \<open>
  \<^verbatim>\<open>orjson.dumps\<close> is an external library. What \<^verbatim>\<open>serialize_value\<close> documents of it:
  the fallback is called on data of a type that is not natively supported, and its
  result is handled in the same way, up to 254 times before an exception is raised. The
  set of natively supported objects is a parameter; an exception of the fallback ends
  the call. The encoding of a supported object and \<^verbatim>\<open>orjson.loads\<close> of it are taken to
  give the object back.
\<close>

fun dumps :: "(pyobj \<Rightarrow> bool) \<Rightarrow> (pyobj \<Rightarrow> error + pyobj) \<Rightarrow> nat \<Rightarrow> pyobj \<Rightarrow> error + pyobj" where
  "dumps native dflt n obj =
     (if native obj then Inr obj
      else (case n of
              0 \<Rightarrow> Inl RecursionLimit
            | Suc m \<Rightarrow> (case dflt obj of Inl e \<Rightarrow> Inl e | Inr r \<Rightarrow> dumps native dflt m r)))"

text \<open>
  \<^verbatim>\<open>
  def serialize_value(value, default=None):
      if not default:
          default = make_default()
      value = orjson.dumps(value, option=orjson.OPT_SERIALIZE_NUMPY, default=default)
      return orjson.loads(value)
  \<close>
\<close>

definition serialize_value ::
  "(pyobj \<Rightarrow> bool) \<Rightarrow> registry \<Rightarrow> pyobj \<Rightarrow> (pyobj \<Rightarrow> error + pyobj) option \<Rightarrow> error + pyobj" where
  "serialize_value native reg v dflt =
     dumps native (case dflt of None \<Rightarrow> make_default reg | Some f \<Rightarrow> f) 254 v"

section \<open>Parallel Process Adapter\<close>

text \<open>
  The adapter and its worker are two sequential programs joined by a pipe. The state of
  the pair: the messages in flight in each direction, in order; the worker's copy of the
  process and where the worker is in \<^verbatim>\<open>_run_update\<close>; and the requester's remaining
  calls and the results \<^verbatim>\<open>get()\<close> has returned. \<open>calls\<close> records the arguments of every
  \<^verbatim>\<open>next_update\<close> the worker has made; nothing reads it.

  \<^verbatim>\<open>next_update\<close> is abstract in \<^verbatim>\<open>Process\<close>: it is a parameter \<open>nu\<close>, a function of
  the process's private state, the interval and the states that returns the update and
  the new private state.
\<close>

datatype wstatus = Running | Exited | Closed

datatype call = Update real pyval | Get | End | Join

record 'ps world =
  down :: "(real \<times> pyval) list"
  up :: "pyval list"
  wproc :: 'ps
  wstat :: wstatus
  calls :: "(real \<times> pyval) list"
  todo :: "call list"
  got :: "pyval list"

text \<open>
  \<^verbatim>\<open>
  def _run_update(connection, process):
      running = True
      while running:
          interval, states = connection.recv()
          if interval == -1:
              running = False
          else:
              update = process.next_update(interval, states)
              connection.send(update)
      connection.close()
  \<close>
  One step of the worker is one iteration of the loop, or the \<^verbatim>\<open>close\<close> after it. With
  no message in the pipe \<^verbatim>\<open>recv\<close> blocks: there is no step.
\<close>

definition run_update_step ::
  "('ps \<Rightarrow> real \<Rightarrow> pyval \<Rightarrow> pyval \<times> 'ps) \<Rightarrow> 'ps world \<Rightarrow> 'ps world option" where
  "run_update_step nu w =
     (case wstat w of
        Running \<Rightarrow>
          (case down w of
             [] \<Rightarrow> None
           | (interval, states) # rest \<Rightarrow>
               if interval = - 1 then Some (w\<lparr>down := rest, wstat := Exited\<rparr>)
               else (let (update, p') = nu (wproc w) interval states
                     in Some (w\<lparr>down := rest, up := up w @ [update], wproc := p',
                                calls := calls w @ [(interval, states)]\<rparr>)))
      | Exited \<Rightarrow> Some (w\<lparr>wstat := Closed\<rparr>)
      | Closed \<Rightarrow> None)"

text \<open>
  \<^verbatim>\<open>
  def update(self, interval, states):
      self.parent.send((interval, states))
  def get(self):
      return self.parent.recv()
  def end(self):
      self.parent.send((-1, None))
      self.multiprocess.join()
  \<close>
  One step of the requester is the next call of its script. \<^verbatim>\<open>get\<close> blocks while no
  reply is in the pipe. \<^verbatim>\<open>end\<close> is two steps: the send, then \<open>Join\<close>, which blocks until
  the worker has returned from \<^verbatim>\<open>_run_update\<close>.
\<close>

definition parent_step :: "'ps world \<Rightarrow> 'ps world option" where
  "parent_step w =
     (case todo w of
        [] \<Rightarrow> None
      | Update interval states # rest \<Rightarrow>
          Some (w\<lparr>down := down w @ [(interval, states)], todo := rest\<rparr>)
      | Get # rest \<Rightarrow>
          (case up w of
             [] \<Rightarrow> None
           | u # us \<Rightarrow> Some (w\<lparr>up := us, todo := rest, got := got w @ [u]\<rparr>))
      | End # rest \<Rightarrow> Some (w\<lparr>down := down w @ [(- 1, VNone)], todo := Join # rest\<rparr>)
      | Join # rest \<Rightarrow> if wstat w = Closed then Some (w\<lparr>todo := rest\<rparr>) else None)"

text \<open>The two programs run concurrently: a step of the pair is a step of either.\<close>

inductive step :: "('ps \<Rightarrow> real \<Rightarrow> pyval \<Rightarrow> pyval \<times> 'ps) \<Rightarrow> 'ps world \<Rightarrow> 'ps world \<Rightarrow> bool"
  for nu :: "'ps \<Rightarrow> real \<Rightarrow> pyval \<Rightarrow> pyval \<times> 'ps" where
  worker: "run_update_step nu w = Some w' \<Longrightarrow> step nu w w'"
| parent: "parent_step w = Some w' \<Longrightarrow> step nu w w'"

text \<open>\<^verbatim>\<open>ParallelProcess(process)\<close>: an empty pipe and a worker started on the process.\<close>

definition parallel_process :: "'ps \<Rightarrow> call list \<Rightarrow> 'ps world" where
  "parallel_process p script =
     \<lparr>down = [], up = [], wproc = p, wstat = Running, calls = [], todo = script, got = []\<rparr>"

text \<open>Calling \<^verbatim>\<open>next_update\<close> on the process itself, request after request.\<close>

fun direct ::
  "('ps \<Rightarrow> real \<Rightarrow> pyval \<Rightarrow> pyval \<times> 'ps) \<Rightarrow> 'ps \<Rightarrow> (real \<times> pyval) list \<Rightarrow> pyval list \<times> 'ps" where
  "direct nu p [] = ([], p)"
| "direct nu p ((interval, states) # rest) =
     (let (update, p') = nu p interval states;
          (updates, p'') = direct nu p' rest
      in (update # updates, p''))"

text \<open>The script of the requester for a sequence of requests: \<^verbatim>\<open>update\<close>, then \<^verbatim>\<open>get\<close>.\<close>

fun requests :: "(real \<times> pyval) list \<Rightarrow> call list" where
  "requests [] = []"
| "requests ((interval, states) # rest) = Update interval states # Get # requests rest"

text \<open>
  The states the pair passes through while the requester works off \<open>requests reqs\<close>
  on a process \<open>p\<close>: after the requests \<open>pre\<close> have been answered, either nothing is in
  flight and the next request is about to be sent, or the request \<open>r\<close> has been sent
  and \<^verbatim>\<open>get\<close> is next, with \<open>r\<close> still in the pipe or its reply already there.
\<close>

definition adapter_inv ::
  "('ps \<Rightarrow> real \<Rightarrow> pyval \<Rightarrow> pyval \<times> 'ps) \<Rightarrow> 'ps \<Rightarrow> (real \<times> pyval) list \<Rightarrow> 'ps world \<Rightarrow> bool" where
  "adapter_inv nu p reqs w =
     (\<exists>pre post.
        reqs = pre @ post \<and> wstat w = Running \<and> got w = fst (direct nu p pre) \<and>
        ((todo w = requests post \<and> down w = [] \<and> up w = [] \<and> calls w = pre \<and>
          wproc w = snd (direct nu p pre))
         \<or> (\<exists>r post'. post = r # post' \<and> todo w = Get # requests post' \<and>
               ((down w = [r] \<and> up w = [] \<and> calls w = pre \<and>
                 wproc w = snd (direct nu p pre))
                \<or> (down w = [] \<and> up w = [last (fst (direct nu p (pre @ [r])))] \<and>
                    calls w = pre @ [r] \<and> wproc w = snd (direct nu p (pre @ [r])))))))"

text \<open>
  A bound on the steps the pair can still take: every call of the script and every
  message in the pipe costs steps, and the worker has its loop exit and its \<^verbatim>\<open>close\<close>
  ahead of it.
\<close>

fun cost :: "call \<Rightarrow> nat" where
  "cost (Update interval states) = 2"
| "cost Get = 1"
| "cost End = 3"
| "cost Join = 1"

definition remaining :: "'ps world \<Rightarrow> nat" where
  "remaining w =
     sum_list (map cost (todo w)) + length (down w)
     + (case wstat w of Running \<Rightarrow> 2 | Exited \<Rightarrow> 1 | Closed \<Rightarrow> 0)"

section \<open>Schema overrides of nested processes\<close>

text \<open>
  \<^verbatim>\<open>_override_schemas\<close> and \<^verbatim>\<open>merge_overrides\<close> change objects in place, and the same
  object can be reached in several ways: a process may sit under two keys, and
  \<^verbatim>\<open>Process.generate\<close> passes the process's own \<^verbatim>\<open>schema_override\<close> as the overrides. So
  they are modelled over a store of objects, as \<^verbatim>\<open>assoc_in\<close> is above: a value is an atom
  or a reference, an address is an index into the store. An object is a dictionary, a
  \<^verbatim>\<open>Process\<close>, or something else. Of a process only the attribute
  \<^verbatim>\<open>self.schema_override\<close> is kept, the one these functions read; it is a value, normally
  the reference to a dictionary. Every function returns the store together with the
  exception raised, if any.
\<close>

datatype sobj = SDict "(string \<times> hval) list" | SProc hval | SOther

type_synonym store = "sobj list"

fun store_obj :: "store \<Rightarrow> hval \<Rightarrow> sobj option" where
  "store_obj h (HRef a) = (if a < length h then Some (h ! a) else None)"
| "store_obj h _ = None"

definition store_dict :: "store \<Rightarrow> hval \<Rightarrow> (string \<times> hval) list option" where
  "store_dict h v = (case store_obj h v of Some (SDict items) \<Rightarrow> Some items | _ \<Rightarrow> None)"

text \<open>
  One step of \<^verbatim>\<open>for key, value in d.items()\<close> over a dictionary that the loop body may
  change: the iterator remembers the size \<open>n0\<close> the dictionary had when the loop began
  and its position \<open>i\<close>; asked for the next item it raises \<^verbatim>\<open>RuntimeError\<close> (dictionary
  changed size during iteration) when the size is no longer \<open>n0\<close>, and otherwise gives
  the item at the position, or nothing when the position is past the end.
\<close>

definition iter_next :: "store \<Rightarrow> hval \<Rightarrow> nat \<Rightarrow> nat \<Rightarrow> error + (string \<times> hval) option" where
  "iter_next h d n0 i =
     (case store_dict h d of
        None \<Rightarrow> Inl RuntimeError
      | Some items \<Rightarrow>
          if length items \<noteq> n0 then Inl RuntimeError
          else if i < n0 then Inr (Some (items ! i))
          else Inr None)"

text \<open>
  Modelled from the spec: \<^verbatim>\<open>deep_merge\<close> of \<^verbatim>\<open>vivarium.library.dict_utils\<close>, which is
  not part of the sources, as the in-place update the source uses it as (both
  \<^verbatim>\<open>merge_overrides\<close> and \<^verbatim>\<open>get_schema\<close> discard what it returns). It is the
  depth-first merge of the spec, the override winning: for every item of the override,
  in order, if the base holds a dictionary under the key and the item's value is a
  dictionary, the two are merged in turn; otherwise the item's value is stored in the
  base under the key, as the same object. Merging \<^verbatim>\<open>None\<close> changes nothing; a base or an
  override that is not a dictionary is a \<^verbatim>\<open>TypeError\<close> of the model. The first argument
  bounds the depth of the recursion; beyond it Python raises \<^verbatim>\<open>RecursionError\<close>.
\<close>

fun deep_merge_store :: "nat \<Rightarrow> store \<Rightarrow> hval \<Rightarrow> hval \<Rightarrow> store \<times> error option"
  and deep_merge_loop ::
    "nat \<Rightarrow> nat \<Rightarrow> nat list \<Rightarrow> store \<Rightarrow> hval \<Rightarrow> hval \<Rightarrow> store \<times> error option" where
  "deep_merge_store 0 h dct merge_dct = (h, Some RecursionError)"
| "deep_merge_store (Suc m) h dct merge_dct =
     (if merge_dct = HNone then (h, None)
      else (case store_dict h merge_dct of
              None \<Rightarrow> (h, Some TypeError)
            | Some items \<Rightarrow> deep_merge_loop m (length items) [0..<length items] h dct merge_dct))"
| "deep_merge_loop m n0 [] h dct merge_dct =
     (case iter_next h merge_dct n0 n0 of Inl e \<Rightarrow> (h, Some e) | Inr _ \<Rightarrow> (h, None))"
| "deep_merge_loop m n0 (i # rest) h dct merge_dct =
     (case iter_next h merge_dct n0 i of
        Inl e \<Rightarrow> (h, Some e)
      | Inr None \<Rightarrow> (h, None)
      | Inr (Some (k, v)) \<Rightarrow>
          (case dct of
             HRef d \<Rightarrow>
               (case store_dict h dct of
                  None \<Rightarrow> (h, Some TypeError)
                | Some ditems \<Rightarrow>
                    (case map_of ditems k of
                       Some dv \<Rightarrow>
                         if store_dict h dv \<noteq> None \<and> store_dict h v \<noteq> None
                         then (case deep_merge_store m h dv v of
                                 (h', Some e) \<Rightarrow> (h', Some e)
                               | (h', None) \<Rightarrow> deep_merge_loop m n0 rest h' dct merge_dct)
                         else deep_merge_loop m n0 rest
                                (h[d := SDict (AList.update k v ditems)]) dct merge_dct
                     | None \<Rightarrow>
                         deep_merge_loop m n0 rest
                           (h[d := SDict (AList.update k v ditems)]) dct merge_dct))
           | _ \<Rightarrow> (h, Some TypeError)))"

text \<open>
  \<^verbatim>\<open>
  def merge_overrides(self, override):
      deep_merge(self.schema_override, override)
  \<close>
\<close>

definition merge_overrides :: "nat \<Rightarrow> store \<Rightarrow> hval \<Rightarrow> hval \<Rightarrow> store \<times> error option" where
  "merge_overrides m h self override =
     (case store_obj h self of
        Some (SProc so) \<Rightarrow> deep_merge_store m h so override
      | _ \<Rightarrow> (h, Some AttributeError))"

text \<open>
  \<^verbatim>\<open>
  def _override_schemas(overrides, processes):
      for key, override in overrides.items():
          process = processes[key]
          if isinstance(process, Process):
              process.merge_overrides(override)
          elif isinstance(process, dict):
              _override_schemas(override, process)
  \<close>
  \<open>override_schemas\<close> is the call, \<open>override_schemas_loop\<close> its loop over the positions
  that are left. \<^verbatim>\<open>items()\<close> of a value that is not a dictionary raises
  \<^verbatim>\<open>AttributeError\<close>, a subscript on one raises \<^verbatim>\<open>TypeError\<close>, a missing key raises
  \<^verbatim>\<open>KeyError\<close>. The first argument is the depth bound handed to \<^verbatim>\<open>deep_merge\<close>, the
  second bounds the depth of the recursion of \<^verbatim>\<open>_override_schemas\<close> itself.
\<close>

fun override_schemas :: "nat \<Rightarrow> nat \<Rightarrow> store \<Rightarrow> hval \<Rightarrow> hval \<Rightarrow> store \<times> error option"
  and override_schemas_loop ::
    "nat \<Rightarrow> nat \<Rightarrow> nat \<Rightarrow> nat list \<Rightarrow> store \<Rightarrow> hval \<Rightarrow> hval \<Rightarrow> store \<times> error option" where
  "override_schemas m 0 h overrides processes = (h, Some RecursionError)"
| "override_schemas m (Suc n) h overrides processes =
     (case store_dict h overrides of
        None \<Rightarrow> (h, Some AttributeError)
      | Some items \<Rightarrow>
          override_schemas_loop m n (length items) [0..<length items] h overrides processes)"
| "override_schemas_loop m n n0 [] h overrides processes =
     (case iter_next h overrides n0 n0 of Inl e \<Rightarrow> (h, Some e) | Inr _ \<Rightarrow> (h, None))"
| "override_schemas_loop m n n0 (i # rest) h overrides processes =
     (case iter_next h overrides n0 i of
        Inl e \<Rightarrow> (h, Some e)
      | Inr None \<Rightarrow> (h, None)
      | Inr (Some (key, override)) \<Rightarrow>
          (case store_dict h processes of
             None \<Rightarrow> (h, Some TypeError)
           | Some ps \<Rightarrow>
               (case map_of ps key of
                  None \<Rightarrow> (h, Some KeyError)
                | Some process \<Rightarrow>
                    (case store_obj h process of
                       Some (SProc so) \<Rightarrow>
                         (case merge_overrides m h process override of
                            (h', Some e) \<Rightarrow> (h', Some e)
                          | (h', None) \<Rightarrow>
                              override_schemas_loop m n n0 rest h' overrides processes)
                     | Some (SDict sub) \<Rightarrow>
                         (case override_schemas m n h override process of
                            (h', Some e) \<Rightarrow> (h', Some e)
                          | (h', None) \<Rightarrow>
                              override_schemas_loop m n n0 rest h' overrides processes)
                     | _ \<Rightarrow> override_schemas_loop m n n0 rest h overrides processes))))"

text \<open>
  \<^verbatim>\<open>
  def generate(self, config=None, path=''):
      ...
      processes = self.generate_processes(config)      # {name: self}
      ...
      _override_schemas(self.schema_override, processes)
      return {'processes': ..., 'topology': ...}
  \<close>
  What \<^verbatim>\<open>generate\<close> does to the store up to and including \<^verbatim>\<open>_override_schemas\<close>:
  \<^verbatim>\<open>generate_processes\<close> builds the new dictionary \<^verbatim>\<open>{name: self}\<close>, and the overrides
  passed on are the process's own \<^verbatim>\<open>schema_override\<close>. The configuration, the topology and
  the dictionary returned do not touch the objects that exist and are left out; \<open>key\<close>
  is the name \<^verbatim>\<open>generate_processes\<close> files the process under.
\<close>

definition generate :: "nat \<Rightarrow> nat \<Rightarrow> store \<Rightarrow> hval \<Rightarrow> string \<Rightarrow> store \<times> error option" where
  "generate m n h self key =
     (case store_obj h self of
        Some (SProc so) \<Rightarrow>
          override_schemas m n (h @ [SDict [(key, self)]]) so (HRef (length h))
      | _ \<Rightarrow> (h, Some AttributeError))"

section \<open>Properties of \<^verbatim>\<open>assoc_in\<close>\<close>

lemma map_of_dict_set: "map_of (dict_set d k v) = (map_of d)(k \<mapsto> v)"
  by (simp add: dict_set_def update_conv')

lemma get_in_empty_dict: "q \<noteq> [] \<Longrightarrow> get_in (VDict []) q = None"
  by (cases q) simp_all

lemma assoc_in_fails: "\<not> insertable tree p \<Longrightarrow> assoc_in tree p v = Inl AttributeError"
proof (induction tree p rule: insertable.induct)
  case (2 d k ks)
  then show ?case by (auto simp: dict_get_def split: option.splits)
qed simp_all

lemma assoc_in_fresh: "\<exists>r. assoc_in (VDict []) ks v = Inr r"
  by (induction ks) (auto simp: dict_get_def)

lemma assoc_in_returns: "insertable tree p \<Longrightarrow> \<exists>r. assoc_in tree p v = Inr r"
proof (induction tree p rule: insertable.induct)
  case (2 d k ks)
  show ?case
  proof (cases "map_of d k")
    case None
    then show ?thesis using assoc_in_fresh [of ks v] by (auto simp: dict_get_def)
  next
    case (Some c)
    then show ?thesis using 2 by (auto simp: dict_get_def)
  qed
qed simp_all

lemma assoc_in_read_back: "assoc_in tree p v = Inr r \<Longrightarrow> get_in r p = Some v"
proof (induction tree p v arbitrary: r rule: assoc_in.induct)
  case (2 d k ks v)
  then show ?case
    by (auto simp: map_of_dict_set split: sum.splits)
qed simp_all

lemma assoc_in_local:
  "assoc_in tree p v = Inr r \<Longrightarrow> \<not> prefix q p \<Longrightarrow> \<not> prefix p q \<Longrightarrow> get_in r q = get_in tree q"
proof (induction tree p v arbitrary: r q rule: assoc_in.induct)
  case (2 d k ks v)
  then obtain sub where sub: "assoc_in (dict_get d k (VDict [])) ks v = Inr sub"
    and r: "r = VDict (dict_set d k sub)"
    by (auto split: sum.splits)
  from 2(3) obtain k' qs where q: "q = k' # qs" by (cases q) auto
  show ?case
  proof (cases "k' = k")
    case False
    then show ?thesis by (simp add: q r map_of_dict_set)
  next
    case True
    with 2(3,4) q have np: "\<not> prefix qs ks" "\<not> prefix ks qs" by auto
    then have ne: "qs \<noteq> []" by auto
    have "get_in sub qs = get_in (dict_get d k (VDict [])) qs"
      using 2(1) sub np by blast
    then show ?thesis using True ne
      by (simp add: q r map_of_dict_set dict_get_def get_in_empty_dict split: option.splits)
  qed
qed simp_all

lemma assoc_in_spine:
  "assoc_in tree p v = Inr r \<Longrightarrow> strict_prefix q p \<Longrightarrow> \<exists>m. get_in r q = Some (VDict m)"
proof (induction tree p v arbitrary: r q rule: assoc_in.induct)
  case (2 d k ks v)
  then obtain sub where sub: "assoc_in (dict_get d k (VDict [])) ks v = Inr sub"
    and r: "r = VDict (dict_set d k sub)"
    by (auto split: sum.splits)
  show ?case
  proof (cases q)
    case Nil
    then show ?thesis by (simp add: r)
  next
    case (Cons k' qs)
    with 2(3) have "k' = k" "strict_prefix qs ks" by auto
    then show ?thesis using 2(1) sub by (simp add: Cons r map_of_dict_set)
  qed
qed simp_all

text \<open>
  C1, as stated, at a path that runs through a value that is not a mapping: in the tree
  \<^verbatim>\<open>{'a': 1}\<close> the path \<^verbatim>\<open>('a', 'b')\<close> passes through the number 1, and \<^verbatim>\<open>assoc_in\<close>
  raises \<^verbatim>\<open>AttributeError\<close> instead of returning a tree.
\<close>

theorem assoc_in_through_leaf_raises:
  "assoc_in (VDict [(''a'', VInt 1)]) [''a'', ''b''] (VInt 2) = Inl AttributeError"
  by (simp add: dict_get_def)

text \<open>
  C1, amended. When the path does not run through a value that is present and is not a
  mapping, \<^verbatim>\<open>assoc_in(tree, p, v)\<close> returns a tree \<open>r\<close> such that reading \<open>p\<close> back
  from \<open>r\<close> gives \<open>v\<close>; every path that neither leads to the location \<open>p\<close> nor lies
  below it reads the same in \<open>r\<close> as in \<open>tree\<close> (so the other keys are untouched, and the
  mappings created along \<open>p\<close> hold nothing but the next step of \<open>p\<close>); and every proper
  prefix of \<open>p\<close> names a mapping in \<open>r\<close>. When the path does run through such a value,
  \<^verbatim>\<open>assoc_in\<close> raises \<^verbatim>\<open>AttributeError\<close>.
\<close>

theorem assoc_in_spec:
  "(insertable tree p \<longrightarrow>
      (\<exists>r. assoc_in tree p v = Inr r \<and> get_in r p = Some v
         \<and> (\<forall>q. \<not> prefix q p \<longrightarrow> \<not> prefix p q \<longrightarrow> get_in r q = get_in tree q)
         \<and> (\<forall>q. strict_prefix q p \<longrightarrow> (\<exists>m. get_in r q = Some (VDict m)))))
   \<and> (\<not> insertable tree p \<longrightarrow> assoc_in tree p v = Inl AttributeError)"
proof (intro conjI impI)
  assume "insertable tree p"
  then obtain r where r: "assoc_in tree p v = Inr r"
    using assoc_in_returns by blast
  show "\<exists>r. assoc_in tree p v = Inr r \<and> get_in r p = Some v
         \<and> (\<forall>q. \<not> prefix q p \<longrightarrow> \<not> prefix p q \<longrightarrow> get_in r q = get_in tree q)
         \<and> (\<forall>q. strict_prefix q p \<longrightarrow> (\<exists>m. get_in r q = Some (VDict m)))"
    using r assoc_in_read_back [OF r] assoc_in_local [OF r] assoc_in_spine [OF r] by blast
next
  assume "\<not> insertable tree p"
  then show "assoc_in tree p v = Inl AttributeError" by (rule assoc_in_fails)
qed

text \<open>The example of the docstring: \<^verbatim>\<open>assoc_in({'a': {'b': 1}}, ('a', 'c', 'd'), 2)\<close>.\<close>

theorem assoc_in_spec_witness:
  "insertable (VDict [(''a'', VDict [(''b'', VInt 1)])]) [''a'', ''c'', ''d'']
   \<and> (\<exists>r. assoc_in (VDict [(''a'', VDict [(''b'', VInt 1)])]) [''a'', ''c'', ''d''] (VInt 2) = Inr r
          \<and> get_in r [''a'', ''c'', ''d''] = Some (VInt 2)
          \<and> get_in r [''a'', ''b''] = Some (VInt 1))
   \<and> \<not> insertable (VDict [(''a'', VInt 1)]) [''a'', ''b'']
   \<and> assoc_in (VDict [(''a'', VInt 1)]) [''a'', ''b''] (VInt 2) = Inl AttributeError"
proof -
  let ?t = "VDict [(''a'', VDict [(''b'', VInt 1)])]"
  have h: "insertable ?t [''a'', ''c'', ''d'']" by simp
  have n: "\<not> insertable (VDict [(''a'', VInt 1)]) [''a'', ''b'']" by simp
  from assoc_in_spec [of ?t "[''a'', ''c'', ''d'']" "VInt 2"] h
  obtain r where r: "assoc_in ?t [''a'', ''c'', ''d''] (VInt 2) = Inr r"
      "get_in r [''a'', ''c'', ''d''] = Some (VInt 2)"
      "\<forall>q. \<not> prefix q [''a'', ''c'', ''d''] \<longrightarrow> \<not> prefix [''a'', ''c'', ''d''] q \<longrightarrow> get_in r q = get_in ?t q"
    by blast
  from r(3) have "get_in r [''a'', ''b''] = get_in ?t [''a'', ''b'']" by simp
  then have "get_in r [''a'', ''b''] = Some (VInt 1)" by simp
  moreover from assoc_in_spec [of "VDict [(''a'', VInt 1)]" "[''a'', ''b'']" "VInt 2"] n
  have "assoc_in (VDict [(''a'', VInt 1)]) [''a'', ''b''] (VInt 2) = Inl AttributeError" by blast
  ultimately show ?thesis using h n r(1,2) by blast
qed

section \<open>\<^verbatim>\<open>assoc_in\<close> leaves the store as it found it\<close>

lemma deref_dict_append:
  "deref_dict h x = Some items \<Longrightarrow> deref_dict (h @ e) x = Some items"
  by (cases x) (auto simp: nth_append split: if_splits)

lemma get_in_h_append:
  "get_in_h h x q = Some y \<Longrightarrow> get_in_h (h @ e) x q = Some y"
proof (induction h x q rule: get_in_h.induct)
  case (2 h d k ks)
  then show ?case
    by (auto simp: deref_dict_append split: option.splits)
qed simp

lemma assoc_in_h_unfold:
  assumes "deref_dict h d = Some items"
    and "assoc_in_h (h @ [ODict []])
           (case map_of items k of Some c \<Rightarrow> c | None \<Rightarrow> HRef (length h)) ks v = (h2, res)"
  shows "assoc_in_h h d (k # ks) v =
     (case res of
        Inl e \<Rightarrow> (h2, Inl e)
      | Inr sub \<Rightarrow>
          (case deref_dict h2 d of
             None \<Rightarrow> (h2, Inl TypeError)
           | Some items2 \<Rightarrow>
               (h2 @ [ODict (AList.update k sub items2)], Inr (HRef (length h2)))))"
  using assms by simp

lemma assoc_in_h_extends: "\<exists>new. fst (assoc_in_h h d p v) = h @ new"
proof (induction h d p v rule: assoc_in_h.induct)
  case (2 h d k ks v)
  show ?case
  proof (cases "deref_dict h d")
    case None
    then show ?thesis by simp
  next
    case (Some items)
    let ?c = "case map_of items k of Some c \<Rightarrow> c | None \<Rightarrow> HRef (length h)"
    obtain h2 res where rec: "assoc_in_h (h @ [ODict []]) ?c ks v = (h2, res)"
      by (cases "assoc_in_h (h @ [ODict []]) ?c ks v")
    have "\<exists>n2. fst (assoc_in_h (h @ [ODict []]) ?c ks v) = (h @ [ODict []]) @ n2"
      by (rule 2 [OF Some])
    with rec have h2: "\<exists>n2. h2 = h @ n2" by auto
    show ?thesis unfolding assoc_in_h_unfold [OF Some rec] using h2
      by (auto split: sum.splits option.splits)
  qed
qed simp

lemma assoc_in_h_path:
  "assoc_in_h h d p v = (h', Inr r) \<Longrightarrow>
     get_in_h h' r p = Some v \<and>
     (\<forall>q. strict_prefix q p \<longrightarrow>
        (\<exists>a. get_in_h h' r q = Some (HRef a) \<and> length h \<le> a \<and> a < length h'))"
proof (induction h d p v arbitrary: h' r rule: assoc_in_h.induct)
  case (2 h d k ks v)
  from 2(2) obtain items where Some: "deref_dict h d = Some items"
    by (cases "deref_dict h d") auto
  let ?c = "case map_of items k of Some c \<Rightarrow> c | None \<Rightarrow> HRef (length h)"
  obtain h2 res where rec: "assoc_in_h (h @ [ODict []]) ?c ks v = (h2, res)"
    by (cases "assoc_in_h (h @ [ODict []]) ?c ks v")
  from 2(2) obtain sub items2 where res: "res = Inr sub"
    and it2: "deref_dict h2 d = Some items2"
    and h': "h' = h2 @ [ODict (AList.update k sub items2)]"
    and r: "r = HRef (length h2)"
    unfolding assoc_in_h_unfold [OF Some rec]
    by (auto split: sum.splits option.splits)
  have IH: "get_in_h h2 sub ks = Some v \<and>
     (\<forall>q. strict_prefix q ks \<longrightarrow>
        (\<exists>a. get_in_h h2 sub q = Some (HRef a) \<and> length (h @ [ODict []]) \<le> a \<and> a < length h2))"
    by (rule 2(1) [OF Some]) (simp add: rec res)
  from assoc_in_h_extends [of "h @ [ODict []]" ?c ks v] rec
  have len: "length h < length h2" by auto
  have top: "deref_dict h' r = Some (AList.update k sub items2)"
    by (simp add: h' r)
  have rb: "get_in_h h' r (k # ks) = Some v"
    using IH get_in_h_append [of h2 sub ks v] by (simp add: top update_conv') (simp add: h')
  have fresh: "\<exists>a. get_in_h h' r q = Some (HRef a) \<and> length h \<le> a \<and> a < length h'"
    if q: "strict_prefix q (k # ks)" for q
  proof (cases q)
    case Nil
    then show ?thesis using len by (simp add: r h')
  next
    case (Cons k' qs)
    with q have k': "k' = k" and qs: "strict_prefix qs ks" by auto
    from IH qs obtain a where a: "get_in_h h2 sub qs = Some (HRef a)" "length h < a" "a < length h2"
      by auto
    from get_in_h_append [OF a(1)] have "get_in_h h' sub qs = Some (HRef a)" by (simp add: h')
    then show ?thesis using a(2,3) by (simp add: Cons k' top update_conv') (simp add: h')
  qed
  show ?case using rb fresh by blast
qed simp

text \<open>
  C8. Whatever \<^verbatim>\<open>assoc_in\<close> is called with, and whether it returns or raises, the store
  afterwards is the store before followed by new objects: every object that existed
  before the call, the input and every mapping reachable from it among them, is
  unchanged. When it returns \<open>r\<close>, reading the path back from \<open>r\<close> gives the value,
  and every mapping of the result along the inserted path (the result itself for a
  non-empty path) is an object allocated by the call.
\<close>

theorem assoc_in_no_mutation:
  "(\<exists>new. fst (assoc_in_h h d p v) = h @ new)
   \<and> (\<forall>h' r. assoc_in_h h d p v = (h', Inr r) \<longrightarrow>
        get_in_h h' r p = Some v \<and>
        (\<forall>q. strict_prefix q p \<longrightarrow>
           (\<exists>a. get_in_h h' r q = Some (HRef a) \<and> length h \<le> a \<and> a < length h')))"
  using assoc_in_h_extends [of h d p v] assoc_in_h_path [of h d p v] by blast

text \<open>
  The example of the docstring on a store: object 0 is \<^verbatim>\<open>{'a': <object 1>}\<close>, object 1
  is \<^verbatim>\<open>{'b': 1}\<close>; the call leaves both in place, returns the new object 7, and the
  mapping under \<^verbatim>\<open>'a'\<close> in the result is the new object 6.
\<close>

theorem assoc_in_no_mutation_witness:
  "assoc_in_h [ODict [(''a'', HRef 1)], ODict [(''b'', HInt 1)]] (HRef 0) [''a'', ''c'', ''d''] (HInt 2)
     = ([ODict [(''a'', HRef 1)], ODict [(''b'', HInt 1)], ODict [], ODict [], ODict [],
         ODict [(''d'', HInt 2)], ODict [(''b'', HInt 1), (''c'', HRef 5)], ODict [(''a'', HRef 6)]],
        Inr (HRef 7))
   \<and> strict_prefix [''a''] [''a'', ''c'', ''d'']
   \<and> (\<exists>a. get_in_h [ODict [(''a'', HRef 1)], ODict [(''b'', HInt 1)], ODict [], ODict [], ODict [],
         ODict [(''d'', HInt 2)], ODict [(''b'', HInt 1), (''c'', HRef 5)], ODict [(''a'', HRef 6)]]
         (HRef 7) [''a''] = Some (HRef a) \<and> 2 \<le> a)"
proof -
  let ?h = "[ODict [(''a'', HRef 1)], ODict [(''b'', HInt 1)]]"
  let ?h' = "[ODict [(''a'', HRef 1)], ODict [(''b'', HInt 1)], ODict [], ODict [], ODict [],
         ODict [(''d'', HInt 2)], ODict [(''b'', HInt 1), (''c'', HRef 5)], ODict [(''a'', HRef 6)]]"
  have run: "assoc_in_h ?h (HRef 0) [''a'', ''c'', ''d''] (HInt 2) = (?h', Inr (HRef 7))"
    by simp
  have sp: "strict_prefix [''a''] [''a'', ''c'', ''d'']" by simp
  from assoc_in_no_mutation [of ?h "HRef 0" "[''a'', ''c'', ''d'']" "HInt 2"] run sp
  have "\<exists>a. get_in_h ?h' (HRef 7) [''a''] = Some (HRef a) \<and> length ?h \<le> a \<and> a < length ?h'"
    by blast
  then have "\<exists>a. get_in_h ?h' (HRef 7) [''a''] = Some (HRef a) \<and> 2 \<le> a" by simp
  with run sp show ?thesis by blast
qed

section \<open>Construction of a process\<close>

lemma wf_items_keys: "wf_items m \<Longrightarrow> map_of m k = Some v \<Longrightarrow> wf_val v"
  by (induction m) (auto split: if_splits)

lemma deep_merge_Cons:
  "deep_merge dct ((k, v) # rest) =
     deep_merge
       (dict_set dct k
          (case v of
             VDict mv \<Rightarrow>
               (case map_of dct k of Some (VDict sub) \<Rightarrow> VDict (deep_merge sub mv) | _ \<Rightarrow> v)
           | _ \<Rightarrow> v))
       rest"
  by (simp split: pyval.splits option.splits)

lemma deep_merge_lookup:
  "wf_items m \<Longrightarrow>
   map_of (deep_merge dct m) k =
     (case map_of m k of
        None \<Rightarrow> map_of dct k
      | Some v \<Rightarrow>
          Some (case v of
                  VDict mv \<Rightarrow>
                    (case map_of dct k of
                       Some (VDict sub) \<Rightarrow> VDict (deep_merge sub mv)
                     | _ \<Rightarrow> v)
                | _ \<Rightarrow> v))"
proof (induction m arbitrary: dct)
  case Nil
  then show ?case by simp
next
  case (Cons kv rest)
  obtain k0 v0 where kv: "kv = (k0, v0)" by (cases kv)
  from Cons.prems kv have nk: "k0 \<notin> fst ` set rest" and wr: "wf_items rest" by auto
  from nk have none: "map_of rest k0 = None" by (simp add: map_of_eq_None_iff)
  have step: "map_of (deep_merge dct (kv # rest)) k =
     (case map_of rest k of
        None \<Rightarrow> map_of (dict_set dct k0
          (case v0 of
             VDict mv \<Rightarrow>
               (case map_of dct k0 of Some (VDict sub) \<Rightarrow> VDict (deep_merge sub mv) | _ \<Rightarrow> v0)
           | _ \<Rightarrow> v0)) k
      | Some v \<Rightarrow>
          Some (case v of
                  VDict mv \<Rightarrow>
                    (case map_of (dict_set dct k0
          (case v0 of
             VDict mv \<Rightarrow>
               (case map_of dct k0 of Some (VDict sub) \<Rightarrow> VDict (deep_merge sub mv) | _ \<Rightarrow> v0)
           | _ \<Rightarrow> v0)) k of
                       Some (VDict sub) \<Rightarrow> VDict (deep_merge sub mv)
                     | _ \<Rightarrow> v)
                | _ \<Rightarrow> v))"
    unfolding kv deep_merge_Cons by (rule Cons.IH [OF wr])
  show ?case
  proof (cases "k = k0")
    case True
    with step none show ?thesis
      by (simp add: kv map_of_dict_set del: deep_merge.simps cong: pyval.case_cong option.case_cong)
  next
    case False
    with step show ?thesis
      by (simp add: kv map_of_dict_set del: deep_merge.simps cong: pyval.case_cong option.case_cong)
  qed
qed


lemma deep_merge_override_wins:
  "wf_items m \<Longrightarrow> q \<noteq> [] \<Longrightarrow> get_in (VDict m) q = Some x \<Longrightarrow> \<not> is_dict x \<Longrightarrow>
   get_in (VDict (deep_merge dct m)) q = Some x"
proof (induction q arbitrary: m dct)
  case Nil
  then show ?case by simp
next
  case (Cons k ks)
  from Cons.prems(3) obtain v where v: "map_of m k = Some v" and gv: "get_in v ks = Some x"
    by (auto split: option.splits)
  have wv: "wf_val v" using wf_items_keys [OF Cons.prems(1) v] .
  show ?case
  proof (cases ks)
    case Nil
    with gv have "v = x" by simp
    with Cons.prems(4) show ?thesis
      by (simp add: Nil deep_merge_lookup [OF Cons.prems(1)] v is_dict_def split: pyval.splits)
  next
    case (Cons k' ks')
    with gv obtain mv where mv: "v = VDict mv" by (cases v) auto
    with wv have wmv: "wf_items mv" by simp
    have ne: "ks \<noteq> []" using Cons by simp
    have rec: "\<And>sub. get_in (VDict (deep_merge sub mv)) ks = Some x"
      using Cons.IH [OF wmv ne _ Cons.prems(4)] gv mv by simp
    show ?thesis
      using rec gv mv
      by (simp add: deep_merge_lookup [OF Cons.prems(1)] v split: pyval.splits option.splits)
  qed
qed


lemma fst_dict_pop: "fst (dict_pop d k dflt) = (case map_of d k of None \<Rightarrow> dflt | Some v \<Rightarrow> v)"
  by (simp add: dict_pop_def split: option.splits)

lemma map_of_dict_pop:
  "map_of (snd (dict_pop d k dflt)) k' = (if k' = k then None else map_of d k')"
  by (simp add: dict_pop_def delete_conv' split: option.splits)

lemma map_of_dict_setdefault:
  "map_of (dict_setdefault d k v) k' =
     (if k' = k then Some (case map_of d k of Some x \<Rightarrow> x | None \<Rightarrow> v) else map_of d k')"
  by (simp add: dict_setdefault_def map_of_dict_set split: option.splits)

lemma parameters_init:
  "parameters (init cls ps) =
     dict_setdefault
       (snd (dict_pop
          (snd (dict_pop (merged_parameters cls ps)
                  ''_schema'' (VDict [])))
          ''_parallel'' (VBool False)))
       ''time_step'' DEFAULT_TIME_STEP"
  by (simp add: init_def Let_def split_beta)

lemma schema_override_init:
  "schema_override (init cls ps) =
     fst (dict_pop (merged_parameters cls ps)
            ''_schema'' (VDict []))"
  by (simp add: init_def Let_def split_beta)

lemma parallel_init:
  "parallel (init cls ps) =
     fst (dict_pop
          (snd (dict_pop (merged_parameters cls ps)
                  ''_schema'' (VDict [])))
          ''_parallel'' (VBool False))"
  by (simp add: init_def Let_def split_beta)

lemma init_parameters_lookup:
  "map_of (parameters (init cls ps)) k =
     (if k = ''_schema'' \<or> k = ''_parallel'' then None
      else if k = ''time_step''
        then Some (case map_of (merged_parameters cls ps) k of
                     Some v \<Rightarrow> v | None \<Rightarrow> DEFAULT_TIME_STEP)
      else map_of (merged_parameters cls ps) k)"
  unfolding parameters_init map_of_dict_setdefault map_of_dict_pop by simp

lemma init_schema_override:
  "schema_override (init cls ps) =
     (case map_of (merged_parameters cls ps) ''_schema'' of
        Some s \<Rightarrow> s | None \<Rightarrow> VDict [])"
  unfolding schema_override_init fst_dict_pop by simp

lemma init_parallel:
  "parallel (init cls ps) =
     (case map_of (merged_parameters cls ps) ''_parallel'' of
        Some s \<Rightarrow> s | None \<Rightarrow> VBool False)"
  unfolding parallel_init fst_dict_pop map_of_dict_pop by simp


text \<open>
  C4, as stated, at a class without defaults constructed without parameters: the merge of
  defaults and parameters is empty and holds neither \<^verbatim>\<open>_schema\<close> nor \<^verbatim>\<open>_parallel\<close>, yet
  the instance's parameters are \<^verbatim>\<open>{'time_step': 1.0}\<close>.
\<close>

theorem init_adds_time_step:
  "parameters (init \<lparr>cls_name = ''P'', cls_attr_name = None, defaults = [],
                     cls_ports_schema = (\<lambda>_. VDict [])\<rparr> None)
     = [(''time_step'', VFloat 1)]
   \<and> merged_parameters \<lparr>cls_name = ''P'', cls_attr_name = None, defaults = [],
                     cls_ports_schema = (\<lambda>_. VDict [])\<rparr> None = []"
  by (simp add: parameters_init deepcopy_def dict_pop_def dict_setdefault_def dict_set_def
      DEFAULT_TIME_STEP_def)

text \<open>
  C4, amended. The parameters of the constructed instance are the class defaults
  deep-merged with the given parameters, without the entries \<^verbatim>\<open>_schema\<close> and
  \<^verbatim>\<open>_parallel\<close>, and with \<^verbatim>\<open>time_step\<close> set to 1.0 when the merge has none. The
  \<^verbatim>\<open>_schema\<close> entry of the merge is the schema-override set (an empty mapping when
  absent), the \<^verbatim>\<open>_parallel\<close> entry is the isolation flag (\<^verbatim>\<open>False\<close> when absent). The
  given values win at every depth: a value of the given parameters that is not a mapping
  is found under the same path in the instance's parameters; and a top-level key the
  given parameters do not have keeps what the defaults say.
\<close>

theorem init_parameters_spec:
  "(\<forall>k. map_of (parameters (init cls ps)) k =
        (if k = ''_schema'' \<or> k = ''_parallel'' then None
         else if k = ''time_step''
           then Some (case map_of (merged_parameters cls ps) k of
                        Some v \<Rightarrow> v | None \<Rightarrow> DEFAULT_TIME_STEP)
         else map_of (merged_parameters cls ps) k))
   \<and> schema_override (init cls ps) =
        (case map_of (merged_parameters cls ps) ''_schema'' of Some s \<Rightarrow> s | None \<Rightarrow> VDict [])
   \<and> parallel (init cls ps) =
        (case map_of (merged_parameters cls ps) ''_parallel'' of Some s \<Rightarrow> s | None \<Rightarrow> VBool False)
   \<and> (\<forall>given k ks x. ps = Some given \<and> wf_items given \<and> k \<noteq> ''_schema'' \<and> k \<noteq> ''_parallel''
          \<and> get_in (VDict given) (k # ks) = Some x \<and> \<not> is_dict x
        \<longrightarrow> get_in (VDict (parameters (init cls ps))) (k # ks) = Some x)
   \<and> (\<forall>given k. ps = Some given \<and> wf_items given \<and> map_of given k = None
        \<longrightarrow> map_of (merged_parameters cls ps) k = map_of (defaults cls) k)"
proof (intro conjI allI impI)
  fix k
  show "map_of (parameters (init cls ps)) k =
        (if k = ''_schema'' \<or> k = ''_parallel'' then None
         else if k = ''time_step''
           then Some (case map_of (merged_parameters cls ps) k of
                        Some v \<Rightarrow> v | None \<Rightarrow> DEFAULT_TIME_STEP)
         else map_of (merged_parameters cls ps) k)"
    by (rule init_parameters_lookup)
next
  show "schema_override (init cls ps) =
        (case map_of (merged_parameters cls ps) ''_schema'' of Some s \<Rightarrow> s | None \<Rightarrow> VDict [])"
    by (rule init_schema_override)
next
  show "parallel (init cls ps) =
        (case map_of (merged_parameters cls ps) ''_parallel'' of Some s \<Rightarrow> s | None \<Rightarrow> VBool False)"
    by (rule init_parallel)
next
  fix given k ks x
  assume a: "ps = Some given \<and> wf_items given \<and> k \<noteq> ''_schema'' \<and> k \<noteq> ''_parallel''
          \<and> get_in (VDict given) (k # ks) = Some x \<and> \<not> is_dict x"
  from a have ps: "ps = Some given" and w: "wf_items given"
    and k1: "k \<noteq> ''_schema''" and k2: "k \<noteq> ''_parallel''"
    and g: "get_in (VDict given) (k # ks) = Some x" and nd: "\<not> is_dict x"
    by blast+
  have "get_in (VDict (deep_merge (deepcopy (defaults cls)) given)) (k # ks) = Some x"
    by (rule deep_merge_override_wins [OF w _ g nd]) simp
  then have m: "get_in (VDict (merged_parameters cls ps)) (k # ks) = Some x"
    by (simp only: ps option.case)
  then obtain c where c: "map_of (merged_parameters cls ps) k = Some c"
    by (cases "map_of (merged_parameters cls ps) k") simp_all
  have "map_of (parameters (init cls ps)) k = map_of (merged_parameters cls ps) k"
  proof (cases "k = ''time_step''")
    case True
    from c have "map_of (merged_parameters cls ps) ''time_step'' = Some c"
      unfolding True .
    then show ?thesis unfolding init_parameters_lookup True by simp
  next
    case False
    then show ?thesis unfolding init_parameters_lookup using k1 k2 by simp
  qed
  with m show "get_in (VDict (parameters (init cls ps))) (k # ks) = Some x"
    by simp
next
  fix given k
  assume "ps = Some given \<and> wf_items given \<and> map_of given k = None"
  then have ps: "ps = Some given" and w: "wf_items given" and n: "map_of given k = None"
    by blast+
  show "map_of (merged_parameters cls ps) k = map_of (defaults cls) k"
    unfolding ps option.case deep_merge_lookup [OF w] n by (simp add: deepcopy_def)
qed


text \<open>
  A class with defaults \<^verbatim>\<open>{'a': {'b': 1, 'c': 2}}\<close> constructed with
  \<^verbatim>\<open>{'a': {'b': 5}, '_parallel': True}\<close>.
\<close>

theorem init_parameters_spec_witness:
  "wf_items [(''a'', VDict [(''b'', VInt 5)]), (''_parallel'', VBool True)]
   \<and> get_in (VDict [(''a'', VDict [(''b'', VInt 5)]), (''_parallel'', VBool True)]) [''a'', ''b'']
        = Some (VInt 5)
   \<and> \<not> is_dict (VInt 5)
   \<and> get_in (VDict (parameters (init
          \<lparr>cls_name = ''P'', cls_attr_name = None,
           defaults = [(''a'', VDict [(''b'', VInt 1), (''c'', VInt 2)])],
           cls_ports_schema = (\<lambda>_. VDict [])\<rparr>
          (Some [(''a'', VDict [(''b'', VInt 5)]), (''_parallel'', VBool True)])))) [''a'', ''b'']
        = Some (VInt 5)
   \<and> parallel (init
          \<lparr>cls_name = ''P'', cls_attr_name = None,
           defaults = [(''a'', VDict [(''b'', VInt 1), (''c'', VInt 2)])],
           cls_ports_schema = (\<lambda>_. VDict [])\<rparr>
          (Some [(''a'', VDict [(''b'', VInt 5)]), (''_parallel'', VBool True)])) = VBool True"
proof -
  let ?given = "[(''a'', VDict [(''b'', VInt 5)]), (''_parallel'', VBool True)]"
  let ?cls = "\<lparr>cls_name = ''P'', cls_attr_name = None,
           defaults = [(''a'', VDict [(''b'', VInt 1), (''c'', VInt 2)])],
           cls_ports_schema = (\<lambda>_. VDict [])\<rparr>"
  have h1: "wf_items ?given" by simp
  have h2: "get_in (VDict ?given) [''a'', ''b''] = Some (VInt 5)" by simp
  have h3: "\<not> is_dict (VInt 5)" by (simp add: is_dict_def)
  have m: "merged_parameters ?cls (Some ?given)
             = [(''a'', VDict [(''b'', VInt 5), (''c'', VInt 2)]), (''_parallel'', VBool True)]"
    by (simp add: deepcopy_def dict_set_def)
  from init_parameters_spec [of ?cls "Some ?given"] h1 h2 h3
  have "get_in (VDict (parameters (init ?cls (Some ?given)))) [''a'', ''b''] = Some (VInt 5)"
    by blast
  moreover from init_parameters_spec [of ?cls "Some ?given"]
  have "parallel (init ?cls (Some ?given)) =
        (case map_of (merged_parameters ?cls (Some ?given)) ''_parallel'' of
           Some s \<Rightarrow> s | None \<Rightarrow> VBool False)"
    by blast
  then have "parallel (init ?cls (Some ?given)) = VBool True"
    unfolding m by simp
  ultimately show ?thesis using h1 h2 h3 by blast
qed

section \<open>The default time step\<close>

text \<open>
  C6. \<^verbatim>\<open>calculate_timestep\<close> gives the same result for any two states arguments, and on
  a constructed process it returns the configured \<^verbatim>\<open>time_step\<close> of the merged defaults
  and parameters, or 1.0 when none is configured.
\<close>

theorem calculate_timestep_fixed:
  "calculate_timestep self s1 = calculate_timestep self s2
   \<and> calculate_timestep (init cls ps) s =
       Inr (case map_of (merged_parameters cls ps) ''time_step'' of
              Some v \<Rightarrow> v | None \<Rightarrow> VFloat 1)"
  by (simp add: calculate_timestep_def init_parameters_lookup DEFAULT_TIME_STEP_def
      split: option.splits)

section \<open>Properties of the Parallel Process Adapter\<close>

lemma direct_snoc:
  "direct nu p (xs @ [(i, s)]) =
     (fst (direct nu p xs) @ [fst (nu (snd (direct nu p xs)) i s)],
      snd (nu (snd (direct nu p xs)) i s))"
  by (induction xs arbitrary: p) (auto simp: split_beta Let_def)

lemma length_direct: "length (fst (direct nu p xs)) = length xs"
  by (induction xs arbitrary: p) (auto simp: split_beta Let_def)

lemma stepE:
  assumes "step nu w w'"
  obtains "run_update_step nu w = Some w'" | "parent_step w = Some w'"
  using assms by (cases rule: step.cases) auto

lemma run_update_step_sentinel:
  "wstat w = Running \<Longrightarrow> down w = (- 1, s) # rest \<Longrightarrow>
   run_update_step nu w = Some (w\<lparr>down := rest, wstat := Exited\<rparr>)"
  by (simp add: run_update_step_def)

lemma run_update_step_request:
  "wstat w = Running \<Longrightarrow> down w = (i, s) # rest \<Longrightarrow> i \<noteq> - 1 \<Longrightarrow>
   run_update_step nu w =
     Some (w\<lparr>down := rest, up := up w @ [fst (nu (wproc w) i s)], wproc := snd (nu (wproc w) i s),
             calls := calls w @ [(i, s)]\<rparr>)"
  by (simp add: run_update_step_def split_beta)

lemma run_update_step_blocked:
  "wstat w = Running \<Longrightarrow> down w = [] \<Longrightarrow> run_update_step nu w = None"
  by (simp add: run_update_step_def)

lemma run_update_step_exited:
  "wstat w = Exited \<Longrightarrow> run_update_step nu w = Some (w\<lparr>wstat := Closed\<rparr>)"
  by (simp add: run_update_step_def)

lemma run_update_step_closed:
  "wstat w = Closed \<Longrightarrow> run_update_step nu w = None"
  by (simp add: run_update_step_def)

lemma calls_never_sentinel_step:
  assumes "step nu w w'" and "\<forall>(i, s) \<in> set (calls w). i \<noteq> - 1"
  shows "\<forall>(i, s) \<in> set (calls w'). i \<noteq> - 1"
  using assms(1)
proof (cases rule: stepE)
  case 1
  then show ?thesis using assms(2)
    by (auto simp: run_update_step_def split_beta split: wstatus.splits list.splits if_splits)
next
  case 2
  then show ?thesis using assms(2)
    by (auto simp: parent_step_def split: list.splits call.splits if_splits)
qed

lemma calls_never_sentinel:
  assumes "(step nu)\<^sup>*\<^sup>* w w'" and "\<forall>(i, s) \<in> set (calls w). i \<noteq> - 1"
  shows "\<forall>(i, s) \<in> set (calls w'). i \<noteq> - 1"
  using assms by (induction rule: rtranclp_induct) (auto dest: calls_never_sentinel_step)

lemma stopped_step:
  assumes "step nu w w'" and "wstat w \<noteq> Running"
  shows "wstat w' \<noteq> Running \<and> calls w' = calls w \<and> wproc w' = wproc w
         \<and> got w' @ up w' = got w @ up w"
  using assms(1)
proof (cases rule: stepE)
  case 1
  then show ?thesis using assms(2)
    by (auto simp: run_update_step_def split: wstatus.splits)
next
  case 2
  then show ?thesis using assms(2)
    by (auto simp: parent_step_def split: list.splits call.splits if_splits)
qed

lemma stopped_steps:
  assumes "(step nu)\<^sup>*\<^sup>* w w'" and "wstat w \<noteq> Running"
  shows "wstat w' \<noteq> Running \<and> calls w' = calls w \<and> wproc w' = wproc w
         \<and> got w' @ up w' = got w @ up w"
  using assms
proof (induction rule: rtranclp_induct)
  case base
  then show ?case by simp
next
  case (step y z)
  then show ?case using stopped_step [of nu y z] by simp
qed


lemma requests_empty: "requests post = [] \<longleftrightarrow> post = []"
  by (cases post) auto

lemma step_decreases: "step nu w w' \<Longrightarrow> remaining w' < remaining w"
proof (erule stepE)
  assume "run_update_step nu w = Some w'"
  then show ?thesis
    by (auto simp: run_update_step_def remaining_def split_beta
        split: wstatus.splits list.splits if_splits)
next
  assume "parent_step w = Some w'"
  then show ?thesis
    by (auto simp: parent_step_def remaining_def split: list.splits call.splits if_splits)
qed

lemma adapter_inv_init: "adapter_inv nu p reqs (parallel_process p (requests reqs))"
  unfolding adapter_inv_def parallel_process_def
  by (rule exI [of _ "[]"], rule exI [of _ reqs]) simp

lemma adapter_inv_final:
  assumes "adapter_inv nu p reqs w" and "todo w = []"
  shows "got w = fst (direct nu p reqs)"
proof -
  from assms(1) obtain pre post where
    r: "reqs = pre @ post" and g: "got w = fst (direct nu p pre)"
    and c: "todo w = requests post \<or> (\<exists>post'. todo w = Get # requests post')"
    unfolding adapter_inv_def by blast
  from c assms(2) have "requests post = []" by auto
  then have "post = []" by (simp add: requests_empty)
  with r g show ?thesis by simp
qed

lemma adapter_inv_step:
  assumes ok: "\<forall>(i, s) \<in> set reqs. i \<noteq> - 1"
    and inv: "adapter_inv nu p reqs w"
    and st: "step nu w w'"
  shows "adapter_inv nu p reqs w'"
proof -
  from inv obtain pre post where
    r: "reqs = pre @ post" and run: "wstat w = Running" and g: "got w = fst (direct nu p pre)"
    and c: "(todo w = requests post \<and> down w = [] \<and> up w = [] \<and> calls w = pre \<and>
              wproc w = snd (direct nu p pre))
         \<or> (\<exists>r post'. post = r # post' \<and> todo w = Get # requests post' \<and>
               ((down w = [r] \<and> up w = [] \<and> calls w = pre \<and>
                 wproc w = snd (direct nu p pre))
                \<or> (down w = [] \<and> up w = [last (fst (direct nu p (pre @ [r])))] \<and>
                    calls w = pre @ [r] \<and> wproc w = snd (direct nu p (pre @ [r])))))"
    unfolding adapter_inv_def by blast
  from c consider
      (idle) "todo w = requests post" "down w = []" "up w = []" "calls w = pre"
             "wproc w = snd (direct nu p pre)"
    | (sent) r' post' where "post = r' # post'" "todo w = Get # requests post'"
             "down w = [r']" "up w = []" "calls w = pre" "wproc w = snd (direct nu p pre)"
    | (answered) r' post' where "post = r' # post'" "todo w = Get # requests post'"
             "down w = []" "up w = [last (fst (direct nu p (pre @ [r'])))]"
             "calls w = pre @ [r']" "wproc w = snd (direct nu p (pre @ [r']))"
    by blast
  then show ?thesis
  proof cases
    case idle
    from st show ?thesis
    proof (cases rule: stepE)
      case 1
      with run idle(2) show ?thesis by (simp add: run_update_step_blocked)
    next
      case 2
      show ?thesis
      proof (cases post)
        case Nil
        with 2 idle(1) show ?thesis by (simp add: parent_step_def)
      next
        case (Cons r' post')
        obtain i s where r': "r' = (i, s)" by (cases r')
        from 2 idle(1,2) Cons r'
        have w': "w' = w\<lparr>down := [(i, s)], todo := Get # requests post'\<rparr>"
          by (simp add: parent_step_def)
        show ?thesis unfolding adapter_inv_def
          by (rule exI [of _ pre], rule exI [of _ post])
             (simp add: w' r run g idle Cons r')
      qed
    qed
  next
    case sent
    obtain i s where r': "r' = (i, s)" by (cases r')
    from ok r sent(1) r' have ne: "i \<noteq> - 1" by auto
    from st show ?thesis
    proof (cases rule: stepE)
      case 1
      with run_update_step_request [OF run _ ne, of s "[]" nu] sent(3) r'
      have w': "w' = w\<lparr>down := [], up := up w @ [fst (nu (wproc w) i s)],
                        wproc := snd (nu (wproc w) i s), calls := calls w @ [(i, s)]\<rparr>"
        by simp
      show ?thesis unfolding adapter_inv_def
        by (rule exI [of _ pre], rule exI [of _ post])
           (simp add: w' r run g sent r' direct_snoc)
    next
      case 2
      with sent(2,4) show ?thesis by (simp add: parent_step_def)
    qed
  next
    case answered
    obtain i s where r': "r' = (i, s)" by (cases r')
    from st show ?thesis
    proof (cases rule: stepE)
      case 1
      with run answered(3) show ?thesis by (simp add: run_update_step_blocked)
    next
      case 2
      with answered(2,4)
      have w': "w' = w\<lparr>up := [], todo := requests post',
                        got := got w @ [last (fst (direct nu p (pre @ [r'])))]\<rparr>"
        by (simp add: parent_step_def)
      have r2: "reqs = (pre @ [r']) @ post'" using r answered(1) by simp
      show ?thesis unfolding adapter_inv_def
        by (rule exI [of _ "pre @ [r']"], rule exI [of _ post'])
           (simp add: w' r2 run g answered r' direct_snoc)
    qed
  qed
qed

lemma adapter_inv_steps:
  assumes "(step nu)\<^sup>*\<^sup>* w w'" and "\<forall>(i, s) \<in> set reqs. i \<noteq> - 1"
    and "adapter_inv nu p reqs w"
  shows "adapter_inv nu p reqs w'"
  using assms by (induction rule: rtranclp_induct) (auto intro: adapter_inv_step)

lemma adapter_inv_progress:
  assumes ok: "\<forall>(i, s) \<in> set reqs. i \<noteq> - 1"
    and inv: "adapter_inv nu p reqs w"
    and more: "todo w \<noteq> []"
  shows "\<exists>w'. step nu w w'"
proof -
  from inv obtain pre post where
    r: "reqs = pre @ post" and run: "wstat w = Running"
    and c: "(todo w = requests post \<and> down w = [] \<and> up w = [])
         \<or> (\<exists>r post'. post = r # post' \<and> todo w = Get # requests post' \<and>
               ((down w = [r] \<and> up w = []) \<or> (down w = [] \<and> (\<exists>u. up w = [u]))))"
    unfolding adapter_inv_def by blast
  from c consider
      (idle) "todo w = requests post"
    | (sent) r' post' where "post = r' # post'" "down w = [r']"
    | (answered) u post' where "todo w = Get # requests post'" "up w = [u]"
    by blast
  then show ?thesis
  proof cases
    case idle
    with more obtain i s post' where "todo w = Update i s # Get # requests post'"
      by (cases post) auto
    then have "parent_step w \<noteq> None" by (simp add: parent_step_def)
    then show ?thesis by (auto intro: step.parent)
  next
    case sent
    obtain i s where r': "r' = (i, s)" by (cases r')
    from ok r sent(1) r' have ne: "i \<noteq> - 1" by auto
    from run_update_step_request [OF run _ ne, of s "[]" nu] sent(2) r'
    have "run_update_step nu w \<noteq> None" by simp
    then show ?thesis by (auto intro: step.worker)
  next
    case answered
    then have "parent_step w \<noteq> None" by (simp add: parent_step_def)
    then show ?thesis by (auto intro: step.parent)
  qed
qed

lemma adapter_completes:
  assumes ok: "\<forall>(i, s) \<in> set reqs. i \<noteq> - 1"
  shows "adapter_inv nu p reqs w \<Longrightarrow> \<exists>w'. (step nu)\<^sup>*\<^sup>* w w' \<and> todo w' = []"
proof (induction "remaining w" arbitrary: w rule: less_induct)
  case less
  show ?case
  proof (cases "todo w = []")
    case True
    then show ?thesis by blast
  next
    case False
    from adapter_inv_progress [OF ok less.prems False] obtain w1 where s1: "step nu w w1"
      by blast
    from less.hyps [OF step_decreases [OF s1] adapter_inv_step [OF ok less.prems s1]]
    obtain w' where "(step nu)\<^sup>*\<^sup>* w1 w'" "todo w' = []" by blast
    with s1 show ?thesis by (meson converse_rtranclp_into_rtranclp)
  qed
qed


text \<open>
  C2. Let no request carry the interval \<open>-1\<close>, and let the requester call \<^verbatim>\<open>update\<close> and
  then \<^verbatim>\<open>get\<close> for each request in order. However the steps of requester and worker
  interleave: there is a run in which the requester finishes its script; a state in which
  it has not finished always has a next step; and whenever it has finished, the results
  of its \<^verbatim>\<open>get\<close> calls are exactly the updates that \<^verbatim>\<open>next_update\<close>, called on the process
  itself request after request, returns. Every step lowers the bound \<open>remaining\<close>, so
  every run is finite.
\<close>

theorem parallel_process_refines_direct:
  assumes "\<forall>(i, s) \<in> set reqs. i \<noteq> - 1"
  shows "(\<exists>w. (step nu)\<^sup>*\<^sup>* (parallel_process p (requests reqs)) w \<and> todo w = [])
       \<and> (\<forall>w. (step nu)\<^sup>*\<^sup>* (parallel_process p (requests reqs)) w \<longrightarrow>
              (todo w = [] \<longrightarrow> got w = fst (direct nu p reqs))
            \<and> (todo w \<noteq> [] \<longrightarrow> (\<exists>w'. step nu w w')))
       \<and> (\<forall>w w'. step nu w w' \<longrightarrow> remaining w' < remaining w)"
proof (intro conjI allI impI)
  show "\<exists>w. (step nu)\<^sup>*\<^sup>* (parallel_process p (requests reqs)) w \<and> todo w = []"
    using adapter_completes [OF assms adapter_inv_init] .
next
  fix w
  assume "(step nu)\<^sup>*\<^sup>* (parallel_process p (requests reqs)) w" and "todo w = []"
  then show "got w = fst (direct nu p reqs)"
    by (intro adapter_inv_final adapter_inv_steps [OF _ assms adapter_inv_init])
next
  fix w
  assume "(step nu)\<^sup>*\<^sup>* (parallel_process p (requests reqs)) w" and "todo w \<noteq> []"
  then show "\<exists>w'. step nu w w'"
    by (intro adapter_inv_progress [OF assms] adapter_inv_steps [OF _ assms adapter_inv_init])
next
  fix w w' :: "'a world"
  assume "step nu w w'"
  then show "remaining w' < remaining w" by (rule step_decreases)
qed

text \<open>
  A process that counts its calls and returns the count with the states it was given,
  asked twice.
\<close>

theorem parallel_process_refines_direct_witness:
  "(1 :: real) \<noteq> - 1 \<and> (2 :: real) \<noteq> - 1
   \<and> (\<exists>w. (step (\<lambda>(n :: int) i s. (VList [VInt n, s], n + 1)))\<^sup>*\<^sup>*
            (parallel_process 0 (requests [(1, VInt 7), (2, VInt 8)])) w
          \<and> todo w = []
          \<and> got w = [VList [VInt 0, VInt 7], VList [VInt 1, VInt 8]])"
proof -
  let ?nu = "\<lambda>(n :: int) (i :: real) s. (VList [VInt n, s], n + 1)"
  let ?reqs = "[(1 :: real, VInt 7), (2, VInt 8)]"
  have h: "\<forall>(i, s) \<in> set ?reqs. i \<noteq> - 1" by simp
  have d: "fst (direct ?nu 0 ?reqs) = [VList [VInt 0, VInt 7], VList [VInt 1, VInt 8]]"
    by simp
  note t = parallel_process_refines_direct [OF h, of ?nu 0]
  from t obtain w where w: "(step ?nu)\<^sup>*\<^sup>* (parallel_process 0 (requests ?reqs)) w"
    "todo w = []"
    by (elim conjE exE)
  from t w have "got w = fst (direct ?nu 0 ?reqs)"
    by (elim conjE allE [of _ w]) simp
  then have g: "got w = [VList [VInt 0, VInt 7], VList [VInt 1, VInt 8]]"
    by (simp only: d)
  show ?thesis
  proof (intro conjI exI [of _ w])
    show "(1 :: real) \<noteq> - 1" by simp
    show "(2 :: real) \<noteq> - 1" by simp
  qed (rule w g)+
qed

text \<open>
  C3. \<^verbatim>\<open>end()\<close> sends the sentinel \<open>(-1, None)\<close> and then waits in \<open>Join\<close>, which
  passes exactly when the worker has closed. A running worker that receives the sentinel
  leaves its loop with its replies, its calls of \<^verbatim>\<open>next_update\<close> and its process as they
  were, and its next step closes the connection. Once the worker has left its loop,
  whatever steps follow, it stays out of the loop, makes no call of \<^verbatim>\<open>next_update\<close>, and
  the replies it has sent (those the requester has collected followed by those in the
  pipe) stay the same: it never sends another message.
\<close>

theorem end_protocol:
  "(todo w = End # rest \<longrightarrow>
      parent_step w = Some (w\<lparr>down := down w @ [(- 1, VNone)], todo := Join # rest\<rparr>))
   \<and> (todo w = Join # rest \<longrightarrow>
        parent_step w = (if wstat w = Closed then Some (w\<lparr>todo := rest\<rparr>) else None))
   \<and> (wstat w = Running \<and> down w = (- 1, VNone) # ms \<longrightarrow>
        run_update_step nu w = Some (w\<lparr>down := ms, wstat := Exited\<rparr>)
        \<and> run_update_step nu (w\<lparr>down := ms, wstat := Exited\<rparr>)
            = Some (w\<lparr>down := ms, wstat := Closed\<rparr>))
   \<and> (wstat w \<noteq> Running \<and> (step nu)\<^sup>*\<^sup>* w w' \<longrightarrow>
        wstat w' \<noteq> Running \<and> calls w' = calls w \<and> wproc w' = wproc w
        \<and> got w' @ up w' = got w @ up w)"
proof (intro conjI impI)
  assume "todo w = End # rest"
  then show "parent_step w = Some (w\<lparr>down := down w @ [(- 1, VNone)], todo := Join # rest\<rparr>)"
    by (simp add: parent_step_def)
next
  assume "todo w = Join # rest"
  then show "parent_step w = (if wstat w = Closed then Some (w\<lparr>todo := rest\<rparr>) else None)"
    by (simp add: parent_step_def)
next
  assume "wstat w = Running \<and> down w = (- 1, VNone) # ms"
  then show "run_update_step nu w = Some (w\<lparr>down := ms, wstat := Exited\<rparr>)"
    by (simp add: run_update_step_sentinel)
next
  show "run_update_step nu (w\<lparr>down := ms, wstat := Exited\<rparr>)
            = Some (w\<lparr>down := ms, wstat := Closed\<rparr>)"
    by (simp add: run_update_step_exited)
next
  assume a: "wstat w \<noteq> Running \<and> (step nu)\<^sup>*\<^sup>* w w'"
  from a show "wstat w' \<noteq> Running" using stopped_steps [of nu w w'] by blast
  from a show "calls w' = calls w" using stopped_steps [of nu w w'] by blast
  from a show "wproc w' = wproc w" using stopped_steps [of nu w w'] by blast
  from a show "got w' @ up w' = got w @ up w" using stopped_steps [of nu w w'] by blast
qed

text \<open>
  \<^verbatim>\<open>end()\<close> after one answered request: the sentinel is sent, the worker receives it and
  closes, and the join passes; the one reply and the one call stay what they were.
\<close>

theorem end_protocol_witness:
  "parent_step \<lparr>down = [], up = [], wproc = (1 :: int), wstat = Running,
                calls = [(1, VInt 7)], todo = [End], got = [VInt 0]\<rparr>
     = Some \<lparr>down = [(- 1, VNone)], up = [], wproc = 1, wstat = Running,
             calls = [(1, VInt 7)], todo = [Join], got = [VInt 0]\<rparr>
   \<and> run_update_step (\<lambda>(n :: int) i s. (VInt n, n + 1))
        \<lparr>down = [(- 1, VNone)], up = [], wproc = 1, wstat = Running,
         calls = [(1, VInt 7)], todo = [Join], got = [VInt 0]\<rparr>
     = Some \<lparr>down = [], up = [], wproc = 1, wstat = Exited,
             calls = [(1, VInt 7)], todo = [Join], got = [VInt 0]\<rparr>
   \<and> (step (\<lambda>(n :: int) i s. (VInt n, n + 1)))\<^sup>*\<^sup>*
        \<lparr>down = [], up = [], wproc = 1, wstat = Exited,
         calls = [(1, VInt 7)], todo = [Join], got = [VInt 0]\<rparr>
        \<lparr>down = [], up = [], wproc = 1, wstat = Closed,
         calls = [(1, VInt 7)], todo = [], got = [VInt 0]\<rparr>
   \<and> calls \<lparr>down = [], up = [], wproc = (1 :: int), wstat = Closed,
         calls = [(1, VInt 7)], todo = [], got = [VInt 0]\<rparr> = [(1, VInt 7)]"
proof -
  let ?nu = "\<lambda>(n :: int) (i :: real) s. (VInt n, n + 1)"
  let ?w0 = "\<lparr>down = [], up = [], wproc = (1 :: int), wstat = Running,
                calls = [(1, VInt 7)], todo = [End], got = [VInt 0]\<rparr>"
  let ?w1 = "\<lparr>down = [(- 1, VNone)], up = [], wproc = (1 :: int), wstat = Running,
             calls = [(1, VInt 7)], todo = [Join], got = [VInt 0]\<rparr>"
  let ?w2 = "\<lparr>down = [], up = [], wproc = (1 :: int), wstat = Exited,
             calls = [(1, VInt 7)], todo = [Join], got = [VInt 0]\<rparr>"
  let ?w3 = "\<lparr>down = [], up = [], wproc = (1 :: int), wstat = Closed,
             calls = [(1, VInt 7)], todo = [Join], got = [VInt 0]\<rparr>"
  let ?w4 = "\<lparr>down = [], up = [], wproc = (1 :: int), wstat = Closed,
             calls = [(1, VInt 7)], todo = [], got = [VInt 0]\<rparr>"
  have a: "parent_step ?w0 = Some ?w1"
    using end_protocol [of ?w0 "[]" "[]" ?nu ?w0] by simp
  have b: "run_update_step ?nu ?w1 = Some ?w2"
    using end_protocol [of ?w1 "[]" "[]" ?nu ?w1] by simp
  have "step ?nu ?w2 ?w3" by (rule step.worker) (simp add: run_update_step_def)
  moreover have "step ?nu ?w3 ?w4" by (rule step.parent) (simp add: parent_step_def)
  ultimately have c: "(step ?nu)\<^sup>*\<^sup>* ?w2 ?w4" by simp
  have ne: "wstat ?w2 \<noteq> Running" by simp
  from end_protocol [of ?w2 "[]" "[]" ?nu ?w4] ne c
  have "calls ?w4 = calls ?w2" by blast
  then have d: "calls ?w4 = [(1, VInt 7)]" by simp
  from a b c d show ?thesis by blast
qed

text \<open>
  C9. The worker's test looks at the interval alone: whatever states value comes with
  the interval \<open>-1\<close>, the worker leaves its loop, and the state after the step differs
  from the state before it only in the message taken from the pipe and in the worker
  having left the loop, so no update was computed and no reply sent. And whatever script
  the requester runs, in every state the pair can reach no call of \<^verbatim>\<open>next_update\<close> has
  had the interval \<open>-1\<close>.
\<close>

theorem sentinel_interval_reserved:
  "(\<forall>s rest. wstat w = Running \<and> down w = (- 1, s) # rest \<longrightarrow>
       run_update_step nu w = Some (w\<lparr>down := rest, wstat := Exited\<rparr>))
   \<and> (\<forall>script w'. (step nu)\<^sup>*\<^sup>* (parallel_process p script) w' \<longrightarrow>
         (\<forall>(i, s) \<in> set (calls w'). i \<noteq> - 1))"
proof (intro conjI allI impI)
  fix s rest
  assume "wstat w = Running \<and> down w = (- 1, s) # rest"
  then show "run_update_step nu w = Some (w\<lparr>down := rest, wstat := Exited\<rparr>)"
    by (simp add: run_update_step_sentinel)
next
  fix script w'
  assume "(step nu)\<^sup>*\<^sup>* (parallel_process p script) w'"
  then show "\<forall>(i, s) \<in> set (calls w'). i \<noteq> - 1"
    by (rule calls_never_sentinel) (simp add: parallel_process_def)
qed

text \<open>
  A request with interval \<open>-1\<close> and states \<open>{'x': 5}\<close> followed by an ordinary
  request: the worker leaves its loop on the first and never calls \<^verbatim>\<open>next_update\<close>.
\<close>

theorem sentinel_interval_reserved_witness:
  "run_update_step (\<lambda>(n :: int) i s. (VInt n, n + 1))
        \<lparr>down = [(- 1, VDict [(''x'', VInt 5)]), (1, VNone)], up = [], wproc = 0,
         wstat = Running, calls = [], todo = [], got = []\<rparr>
     = Some \<lparr>down = [(1, VNone)], up = [], wproc = 0,
             wstat = Exited, calls = [], todo = [], got = []\<rparr>
   \<and> (step (\<lambda>(n :: int) i s. (VInt n, n + 1)))\<^sup>*\<^sup>*
        (parallel_process 0 [Update 2 (VInt 5)])
        \<lparr>down = [], up = [VInt 0], wproc = 1, wstat = Running,
         calls = [(2, VInt 5)], todo = [], got = []\<rparr>
   \<and> calls \<lparr>down = [], up = [VInt 0], wproc = (1 :: int), wstat = Running,
         calls = [(2, VInt 5)], todo = [], got = []\<rparr> = [(2, VInt 5)]
   \<and> (2 :: real) \<noteq> - 1"
proof -
  let ?nu = "\<lambda>(n :: int) (i :: real) s. (VInt n, n + 1)"
  let ?w = "\<lparr>down = [(- 1, VDict [(''x'', VInt 5)]), (1, VNone)], up = [], wproc = (0 :: int),
         wstat = Running, calls = [], todo = [], got = []\<rparr>"
  let ?m = "\<lparr>down = [(2, VInt 5)], up = [], wproc = (0 :: int), wstat = Running,
         calls = [], todo = [], got = []\<rparr>"
  let ?e = "\<lparr>down = [], up = [VInt 0], wproc = (1 :: int), wstat = Running,
         calls = [(2, VInt 5)], todo = [], got = []\<rparr>"
  have a: "run_update_step ?nu ?w
     = Some \<lparr>down = [(1, VNone)], up = [], wproc = 0,
             wstat = Exited, calls = [], todo = [], got = []\<rparr>"
    using sentinel_interval_reserved [of ?w ?nu 0] by simp
  have "step ?nu (parallel_process 0 [Update 2 (VInt 5)]) ?m"
    by (rule step.parent) (simp add: parent_step_def parallel_process_def)
  moreover have "step ?nu ?m ?e"
    by (rule step.worker) (simp add: run_update_step_def)
  ultimately have r: "(step ?nu)\<^sup>*\<^sup>* (parallel_process 0 [Update 2 (VInt 5)]) ?e" by simp
  from sentinel_interval_reserved [of ?w ?nu 0] r
  have "\<forall>(i, s) \<in> set (calls ?e). i \<noteq> - 1" by blast
  then have c: "(2 :: real) \<noteq> - 1" by simp
  have d: "calls ?e = [(2, VInt 5)]" by simp
  from a r c d show ?thesis by blast
qed

section \<open>Properties of the serialization fallback\<close>

lemma compatible_serializers_length:
  "length (compatible_serializers reg obj names) = length (filter (registered_match reg obj) names)"
  by (induction names) (auto simp: registered_match_def split: option.splits)

lemma registered_match_listed:
  assumes "registered_match reg obj key"
  shows "key \<in> set (registry_list reg)"
proof -
  from assms obtain s where "map_of reg key = Some s"
    by (auto simp: registered_match_def registry_access_def split: option.splits)
  then have "key \<in> dom (map_of reg)" by auto
  then show ?thesis by (simp add: registry_list_def dom_map_of_conv_image_fst)
qed

lemma compatible_none:
  assumes "\<forall>key. \<not> registered_match reg obj key"
  shows "compatible_serializers reg obj (registry_list reg) = []"
proof -
  have "length (compatible_serializers reg obj (registry_list reg)) = 0"
    unfolding compatible_serializers_length using assms by simp
  then show ?thesis by simp
qed

lemma compatible_many:
  assumes "registered_match reg obj k1" and "registered_match reg obj k2" and "k1 \<noteq> k2"
  shows "length (compatible_serializers reg obj (registry_list reg)) > 1"
proof -
  let ?f = "filter (registered_match reg obj) (registry_list reg)"
  have d: "distinct ?f" by (simp add: registry_list_def)
  have "{k1, k2} \<subseteq> set ?f" using assms registered_match_listed by auto
  then have "card {k1, k2} \<le> card (set ?f)" by (intro card_mono) auto
  with assms(3) have "2 \<le> length ?f" using distinct_card [OF d] by simp
  then show ?thesis unfolding compatible_serializers_length by simp
qed

lemma compatible_single:
  assumes "compatible_serializers reg obj (registry_list reg) = [s]"
  shows "\<exists>!key. registered_match reg obj key"
proof -
  let ?f = "filter (registered_match reg obj) (registry_list reg)"
  have d: "distinct ?f" by (simp add: registry_list_def)
  from assms have "length ?f = 1" using compatible_serializers_length [of reg obj "registry_list reg"]
    by simp
  then obtain k where k: "?f = [k]" by (cases ?f) auto
  then have "k \<in> set ?f" by simp
  then have mk: "registered_match reg obj k" by simp
  have "k' = k" if "registered_match reg obj k'" for k'
  proof -
    from that registered_match_listed have "k' \<in> set ?f" by auto
    with k show ?thesis by simp
  qed
  with mk show ?thesis by blast
qed

lemma make_default_cases:
  "make_default reg obj =
     (case registry_access reg (obj_type obj) of
        Some s \<Rightarrow> serialize s obj
      | None \<Rightarrow>
          (case compatible_serializers reg obj (registry_list reg) of
             [] \<Rightarrow> Inl NoSerializerFound
           | [s] \<Rightarrow> serialize s obj
           | _ \<Rightarrow> Inl MultipleSerializers))"
  by (auto simp: make_default_def Let_def split: option.splits list.splits)

lemma dumps_fallback:
  "\<not> native v \<Longrightarrow>
   dumps native dflt (Suc n) v =
     (case dflt v of Inl e \<Rightarrow> Inl e | Inr r \<Rightarrow> dumps native dflt n r)"
  by simp

lemma serialize_value_fallback:
  assumes "\<not> native v"
  shows "serialize_value native reg v None =
     (case make_default reg v of Inl e \<Rightarrow> Inl e | Inr r \<Rightarrow> dumps native (make_default reg) 253 r)"
proof -
  have e: "(254 :: nat) = Suc 253" by simp
  show ?thesis
    unfolding serialize_value_def option.case e
    using assms by (rule dumps_fallback [of native v])
qed


text \<open>
  C7. Let the value be of a type that is not natively supported, and let
  \<^verbatim>\<open>serialize_value\<close> be called without a fallback of the caller's. If no serializer is
  registered under the name of the value's type and no registered serializer is for a
  class of the value, the call fails with \<^verbatim>\<open>TypeError\<close> (no serializer found). If none
  is registered under the name of the type and two different keys hold a serializer for
  a class of the value, it fails with \<^verbatim>\<open>TypeError\<close> (multiple serializers). And when
  the call succeeds, a serializer is registered under the name of the type or exactly one
  key holds a serializer for a class of the value.
\<close>

theorem serialize_value_needs_serializer:
  assumes "\<not> native v"
  shows "(registry_access reg (obj_type v) = None \<and> (\<forall>key. \<not> registered_match reg v key)
           \<longrightarrow> serialize_value native reg v None = Inl NoSerializerFound)
       \<and> (registry_access reg (obj_type v) = None
            \<and> (\<exists>k1 k2. k1 \<noteq> k2 \<and> registered_match reg v k1 \<and> registered_match reg v k2)
           \<longrightarrow> serialize_value native reg v None = Inl MultipleSerializers)
       \<and> (\<forall>r. serialize_value native reg v None = Inr r
           \<longrightarrow> registry_access reg (obj_type v) \<noteq> None \<or> (\<exists>!key. registered_match reg v key))"
proof (intro conjI allI impI)
  assume "registry_access reg (obj_type v) = None \<and> (\<forall>key. \<not> registered_match reg v key)"
  then have "make_default reg v = Inl NoSerializerFound"
    by (simp add: make_default_cases compatible_none)
  then show "serialize_value native reg v None = Inl NoSerializerFound"
    by (simp add: serialize_value_fallback [where native = native and v = v, OF assms])
next
  assume a: "registry_access reg (obj_type v) = None
            \<and> (\<exists>k1 k2. k1 \<noteq> k2 \<and> registered_match reg v k1 \<and> registered_match reg v k2)"
  then have "length (compatible_serializers reg v (registry_list reg)) > 1"
    using compatible_many [of reg v] by blast
  with a have "make_default reg v = Inl MultipleSerializers"
    by (simp add: make_default_def)
  then show "serialize_value native reg v None = Inl MultipleSerializers"
    by (simp add: serialize_value_fallback [where native = native and v = v, OF assms])
next
  fix r
  assume ok: "serialize_value native reg v None = Inr r"
  show "registry_access reg (obj_type v) \<noteq> None \<or> (\<exists>!key. registered_match reg v key)"
  proof (cases "registry_access reg (obj_type v)")
    case None
    from ok obtain r' where "make_default reg v = Inr r'"
      unfolding serialize_value_fallback [where native = native and v = v, OF assms] by (cases "make_default reg v") auto
    with None obtain s where "compatible_serializers reg v (registry_list reg) = [s]"
      unfolding make_default_cases by (auto split: list.splits)
    then show ?thesis using compatible_single by blast
  next
    case (Some s)
    then show ?thesis by simp
  qed
qed

text \<open>
  A registry with a serializer for \<^verbatim>\<open>set\<close> and one for \<^verbatim>\<open>Process\<close>, both turning the
  object into a list; lists are natively supported. An object of an unrelated class finds
  no serializer, an object that is both a set and a process finds two, and an object of
  a subclass of \<^verbatim>\<open>Process\<close> is serialized.
\<close>

theorem serialize_value_needs_serializer_witness:
  "serialize_value (\<lambda>obj. obj_type obj = ''list'')
      [(''set'', \<lparr>python_type = ''set'', serialize = (\<lambda>obj. Inr (obj\<lparr>obj_type := ''list''\<rparr>))\<rparr>),
       (''Process'', \<lparr>python_type = ''Process'', serialize = (\<lambda>obj. Inr (obj\<lparr>obj_type := ''list''\<rparr>))\<rparr>)]
      \<lparr>obj_type = ''Foo'', obj_classes = [''Foo'', ''object''], obj_data = VNone\<rparr> None
     = Inl NoSerializerFound
   \<and> serialize_value (\<lambda>obj. obj_type obj = ''list'')
      [(''set'', \<lparr>python_type = ''set'', serialize = (\<lambda>obj. Inr (obj\<lparr>obj_type := ''list''\<rparr>))\<rparr>),
       (''Process'', \<lparr>python_type = ''Process'', serialize = (\<lambda>obj. Inr (obj\<lparr>obj_type := ''list''\<rparr>))\<rparr>)]
      \<lparr>obj_type = ''Both'', obj_classes = [''Both'', ''set'', ''Process''], obj_data = VNone\<rparr> None
     = Inl MultipleSerializers
   \<and> serialize_value (\<lambda>obj. obj_type obj = ''list'')
      [(''set'', \<lparr>python_type = ''set'', serialize = (\<lambda>obj. Inr (obj\<lparr>obj_type := ''list''\<rparr>))\<rparr>),
       (''Process'', \<lparr>python_type = ''Process'', serialize = (\<lambda>obj. Inr (obj\<lparr>obj_type := ''list''\<rparr>))\<rparr>)]
      \<lparr>obj_type = ''Toy'', obj_classes = [''Toy'', ''Process''], obj_data = VNone\<rparr> None
     = Inr \<lparr>obj_type = ''list'', obj_classes = [''Toy'', ''Process''], obj_data = VNone\<rparr>"
proof -
  let ?native = "\<lambda>obj. obj_type obj = ''list''"
  let ?reg = "[(''set'', \<lparr>python_type = ''set'', serialize = (\<lambda>obj. Inr (obj\<lparr>obj_type := ''list''\<rparr>))\<rparr>),
       (''Process'', \<lparr>python_type = ''Process'', serialize = (\<lambda>obj. Inr (obj\<lparr>obj_type := ''list''\<rparr>))\<rparr>)]"
  let ?foo = "\<lparr>obj_type = ''Foo'', obj_classes = [''Foo'', ''object''], obj_data = VNone\<rparr>"
  let ?both = "\<lparr>obj_type = ''Both'', obj_classes = [''Both'', ''set'', ''Process''], obj_data = VNone\<rparr>"
  let ?toy = "\<lparr>obj_type = ''Toy'', obj_classes = [''Toy'', ''Process''], obj_data = VNone\<rparr>"
  have n1: "\<not> ?native ?foo" by simp
  have a1: "registry_access ?reg (obj_type ?foo) = None" by (simp add: registry_access_def)
  have m1: "\<forall>key. \<not> registered_match ?reg ?foo key"
    by (simp add: registered_match_def registry_access_def isinstance_def)
  note t1 = serialize_value_needs_serializer [where native = ?native and v = ?foo and reg = ?reg, OF n1]
  have r1: "serialize_value ?native ?reg ?foo None = Inl NoSerializerFound"
    by (rule mp [OF t1 [THEN conjunct1]]) (intro conjI a1 m1)
  have n2: "\<not> ?native ?both" by simp
  have a2: "registry_access ?reg (obj_type ?both) = None" by (simp add: registry_access_def)
  have m2: "\<exists>k1 k2. k1 \<noteq> k2 \<and> registered_match ?reg ?both k1 \<and> registered_match ?reg ?both k2"
    by (intro exI [of _ "''set''"] exI [of _ "''Process''"])
       (simp add: registered_match_def registry_access_def isinstance_def)
  note t2 = serialize_value_needs_serializer [where native = ?native and v = ?both and reg = ?reg, OF n2]
  have r2: "serialize_value ?native ?reg ?both None = Inl MultipleSerializers"
    by (rule mp [OF t2 [THEN conjunct2, THEN conjunct1]]) (intro conjI a2 m2)
  have r3: "serialize_value ?native ?reg ?toy None
     = Inr \<lparr>obj_type = ''list'', obj_classes = [''Toy'', ''Process''], obj_data = VNone\<rparr>"
    by (simp add: serialize_value_def make_default_def registry_access_def registry_list_def
        isinstance_def dumps.simps [of _ _ 254] dumps.simps [of _ _ 253] del: dumps.simps)
  show ?thesis by (intro conjI r1 r2 r3)
qed

section \<open>Properties of \<^verbatim>\<open>default_state\<close>\<close>


lemma default_port_step_skip:
  "''_default'' \<notin> fst ` set entry \<Longrightarrow>
   default_port port ((key, VDict entry) # rest) state = default_port port rest state"
  by simp
































section \<open>Schema overrides on the store\<close>

text \<open>
  A composite whose overrides and processes are separate objects. Object 0 is the
  overrides \<^verbatim>\<open>{'agent': {'exchange': {'internal': {'mass': {'_default': 1}}}}}\<close>, object 5
  the processes \<^verbatim>\<open>{'agent': {'exchange': <7>, 'division': <8>}}\<close>, objects 7 and 8 the
  two processes with the empty schema-override sets 9 and 10. The override passes through
  the dictionaries under \<^verbatim>\<open>'agent'\<close>, which stay as they were, and arrives in the
  schema-override set of \<^verbatim>\<open>exchange\<close>.
\<close>

lemma override_schemas_composite:
  "override_schemas 1000 1000
     [SDict [(''agent'', HRef 1)],
      SDict [(''exchange'', HRef 2)],
      SDict [(''internal'', HRef 3)],
      SDict [(''mass'', HRef 4)],
      SDict [(''_default'', HInt 1)],
      SDict [(''agent'', HRef 6)],
      SDict [(''exchange'', HRef 7), (''division'', HRef 8)],
      SProc (HRef 9),
      SProc (HRef 10),
      SDict [],
      SDict []]
     (HRef 0) (HRef 5)
   = ([SDict [(''agent'', HRef 1)],
       SDict [(''exchange'', HRef 2)],
       SDict [(''internal'', HRef 3)],
       SDict [(''mass'', HRef 4)],
       SDict [(''_default'', HInt 1)],
       SDict [(''agent'', HRef 6)],
       SDict [(''exchange'', HRef 7), (''division'', HRef 8)],
       SProc (HRef 9),
       SProc (HRef 10),
       SDict [(''internal'', HRef 3)],
       SDict []],
      None)"
  by code_simp

text \<open>
  One process object under two keys, with an override for each: both overrides are merged
  into the one schema-override set, object 3, the second into what the first left there.
\<close>

lemma override_schemas_shared_process:
  "override_schemas 1000 1000
     [SDict [(''a'', HRef 4), (''b'', HRef 5)],
      SDict [(''a'', HRef 2), (''b'', HRef 2)],
      SProc (HRef 3),
      SDict [],
      SDict [(''x'', HInt 1)],
      SDict [(''y'', HInt 2)]]
     (HRef 0) (HRef 1)
   = ([SDict [(''a'', HRef 4), (''b'', HRef 5)],
       SDict [(''a'', HRef 2), (''b'', HRef 2)],
       SProc (HRef 3),
       SDict [(''x'', HInt 1), (''y'', HInt 2)],
       SDict [(''x'', HInt 1)],
       SDict [(''y'', HInt 2)]],
      None)"
  by code_simp

text \<open>
  C5, at the call \<^verbatim>\<open>Process.generate\<close> makes. The process, object 0, was constructed with
  \<^verbatim>\<open>{'_schema': {'P': {'port': {}}}}\<close> and is named \<^verbatim>\<open>P\<close>; its schema-override set is
  object 1. \<^verbatim>\<open>generate\<close> builds the processes \<^verbatim>\<open>{'P': self}\<close>, object 4, and passes the
  schema-override set itself as the overrides, so the overrides have the key structure of
  the processes. The override under \<^verbatim>\<open>'P'\<close> reaches the process and is merged into its
  schema-override set, which is the dictionary being iterated: it grows by the key
  \<^verbatim>\<open>'port'\<close>, and the loop raises \<^verbatim>\<open>RuntimeError\<close> (dictionary changed size during
  iteration). The application of the overrides does not complete.
\<close>

theorem generate_own_overrides_raises:
  "generate 1000 1000
     [SProc (HRef 1), SDict [(''P'', HRef 2)], SDict [(''port'', HRef 3)], SDict []]
     (HRef 0) ''P''
   = ([SProc (HRef 1), SDict [(''P'', HRef 2), (''port'', HRef 3)], SDict [(''port'', HRef 3)],
       SDict [], SDict [(''P'', HRef 0)]],
      Some RuntimeError)"
  by code_simp

end
